theory Spec2Isabelle
  imports Complex_Main
begin

section \<open>Data delivered by the hosting platform\<close>

text \<open>
  The script \<^verbatim>\<open>PRCycleTime.py\<close> reads pull requests through a client library.
  Timestamps of the platform have a resolution of one second; a timestamp is the number of
  seconds since the epoch. Python integers are unbounded.
\<close>

type_synonym timestamp = int

datatype issue_comment = IssueComment (comment_created_at: timestamp)

record review =
  user :: "string option"
  submitted_at :: timestamp

record pull_request =
  created_at :: timestamp
  merged_at :: "timestamp option"
  get_issue_comments :: "issue_comment list"
  get_reviews :: "review list"
  commits :: int
  comments :: int
  review_comments :: int

section \<open>Output and errors\<close>

text \<open>
  Every \<^verbatim>\<open>print\<close> of the script appends one line to the standard output. A \<open>Stat\<close>
  line carries its label and the decimal number shown, that is the value after the
  rounding of its format specification \<^verbatim>\<open>:.1f\<close> or \<^verbatim>\<open>:.0f\<close>.
\<close>

datatype line =
  Heading string
  | Processed nat
  | Stat string rat
  | Size string nat
  | Ratio string nat nat

datatype py_error = StatisticsError | ZeroDivisionError | OverflowError

section \<open>Floating-point numbers\<close>

text \<open>
  A Python float is an IEEE 754 binary64 number. A finite float is represented by the
  rational number it denotes. \<open>round_double\<close> gives the float nearest to a rational: the
  rational is scaled by a power of two so that its integer part has 53 bits (fewer below
  \<open>2 powi - 1022\<close>, where the spacing of the floats stays \<open>2 powi - 1074\<close>), rounded to
  an integer with ties going to the even one, and scaled back. A result of magnitude
  \<open>2 ^ 1024\<close> or more is not a float: \<open>overflows\<close> tests for it where Python raises
  \<^verbatim>\<open>OverflowError\<close>. The floats of the script itself come from differences of
  \<^verbatim>\<open>datetime\<close> values, which lie between the years 1 and 9999, and stay far below that.
\<close>

definition round_half_even :: "rat \<Rightarrow> int" where
  "round_half_even y =
     (let f = \<lfloor>y\<rfloor>; d = y - of_int f in
      if d < 1 / 2 then f else if 1 / 2 < d then f + 1 else if even f then f else f + 1)"

function halvings :: "rat \<Rightarrow> nat" where
  "halvings x = (if x < 2 then 0 else Suc (halvings (x / 2)))"
  by pat_completeness auto
termination
proof (relation "measure (\<lambda>x. nat \<lfloor>x\<rfloor>)")
  show "wf (measure (\<lambda>x::rat. nat \<lfloor>x\<rfloor>))" by simp
next
  fix x :: rat
  assume "\<not> x < 2"
  then have x: "2 \<le> x" by simp
  then have "x / 2 \<le> x - 1" by simp
  then have "\<lfloor>x / 2\<rfloor> \<le> \<lfloor>x - 1\<rfloor>" by (rule floor_mono)
  then have "\<lfloor>x / 2\<rfloor> < \<lfloor>x\<rfloor>" by simp
  moreover have "0 < \<lfloor>x\<rfloor>" using x by simp
  ultimately show "(x / 2, x) \<in> measure (\<lambda>x. nat \<lfloor>x\<rfloor>)" by simp
qed

function doublings :: "rat \<Rightarrow> nat" where
  "doublings x = (if 1 \<le> x \<or> x \<le> 0 then 0 else Suc (doublings (2 * x)))"
  by pat_completeness auto
termination
proof (relation "measure (\<lambda>x. nat \<lfloor>1 / x\<rfloor>)")
  show "wf (measure (\<lambda>x::rat. nat \<lfloor>1 / x\<rfloor>))" by simp
next
  fix x :: rat
  assume "\<not> (1 \<le> x \<or> x \<le> 0)"
  then have x: "0 < x" "x < 1" by simp_all
  define y where "y = 1 / x"
  have y: "1 < y" unfolding y_def using x by simp
  have h: "1 / (2 * x) = y / 2" unfolding y_def by simp
  have "\<lfloor>y / 2\<rfloor> < \<lfloor>y\<rfloor>"
  proof (cases "y < 2")
    case True
    then have "\<lfloor>y / 2\<rfloor> = 0" using y by (simp add: floor_eq_iff)
    moreover have "1 \<le> \<lfloor>y\<rfloor>" using y by simp
    ultimately show ?thesis by simp
  next
    case False
    then have "y / 2 \<le> y - 1" by simp
    then have "\<lfloor>y / 2\<rfloor> \<le> \<lfloor>y - 1\<rfloor>" by (rule floor_mono)
    then show ?thesis by simp
  qed
  moreover have "0 < \<lfloor>y\<rfloor>" using y by simp
  ultimately have "nat \<lfloor>y / 2\<rfloor> < nat \<lfloor>y\<rfloor>" by simp
  then have "nat \<lfloor>1 / (2 * x)\<rfloor> < nat \<lfloor>1 / x\<rfloor>" unfolding h by (simp only: y_def)
  then show "(2 * x, x) \<in> measure (\<lambda>x. nat \<lfloor>1 / x\<rfloor>)" by (simp only: in_measure)
qed

declare halvings.simps [simp del]
declare doublings.simps [simp del]

text \<open>For \<open>0 < x\<close> the exponent \<open>e\<close> with \<open>2 powi e \<le> x < 2 powi (e + 1)\<close>.\<close>

definition exponent :: "rat \<Rightarrow> int" where
  "exponent x = (if 1 \<le> x then int (halvings x) else - int (doublings x))"

definition scale2 :: "rat \<Rightarrow> int \<Rightarrow> rat" where
  "scale2 x k = (if 0 \<le> k then x * 2 ^ nat k else x / 2 ^ nat (- k))"

definition round_double :: "rat \<Rightarrow> rat" where
  "round_double x =
     (if x = 0 then 0
      else (let e = max (exponent \<bar>x\<bar>) (- 1022);
                m = round_half_even (scale2 \<bar>x\<bar> (52 - e))
            in sgn x * scale2 (of_int m) (e - 52)))"

definition overflows :: "rat \<Rightarrow> bool" where
  "overflows x = (2 ^ 1024 \<le> \<bar>round_double x\<bar>)"

section \<open>Python numbers\<close>

text \<open>
  The numbers of the script are Python integers, which are unbounded, and floats. Addition
  and multiplication of two integers are exact. The true division of two integers is the
  float nearest to the quotient. In every other case the integer operand is converted to a
  float and the float operation is rounded once.
\<close>

datatype number = PyInt int | PyFloat rat

fun val :: "number \<Rightarrow> rat" where
  "val (PyInt i) = of_int i"
| "val (PyFloat x) = x"

fun is_int :: "number \<Rightarrow> bool" where
  "is_int (PyInt i) = True"
| "is_int (PyFloat x) = False"

text \<open>\<^verbatim>\<open>float(x)\<close>\<close>

fun to_float :: "number \<Rightarrow> py_error + rat" where
  "to_float (PyInt i) =
     (if overflows (of_int i) then Inl OverflowError else Inr (round_double (of_int i)))"
| "to_float (PyFloat x) = Inr x"

text \<open>\<^verbatim>\<open>x + y\<close>\<close>

fun add :: "number \<Rightarrow> number \<Rightarrow> py_error + number" where
  "add (PyInt a) (PyInt b) = Inr (PyInt (a + b))"
| "add x y =
     (case to_float x of
        Inl e \<Rightarrow> Inl e
      | Inr a \<Rightarrow>
          (case to_float y of
             Inl e \<Rightarrow> Inl e
           | Inr b \<Rightarrow> Inr (PyFloat (round_double (a + b)))))"

text \<open>\<^verbatim>\<open>x * y\<close>\<close>

fun mul :: "number \<Rightarrow> number \<Rightarrow> py_error + number" where
  "mul (PyInt a) (PyInt b) = Inr (PyInt (a * b))"
| "mul x y =
     (case to_float x of
        Inl e \<Rightarrow> Inl e
      | Inr a \<Rightarrow>
          (case to_float y of
             Inl e \<Rightarrow> Inl e
           | Inr b \<Rightarrow> Inr (PyFloat (round_double (a * b)))))"

text \<open>\<^verbatim>\<open>x / y\<close>\<close>

fun truediv :: "number \<Rightarrow> number \<Rightarrow> py_error + number" where
  "truediv (PyInt a) (PyInt b) =
     (if b = 0 then Inl ZeroDivisionError
      else if overflows (of_int a / of_int b) then Inl OverflowError
      else Inr (PyFloat (round_double (of_int a / of_int b))))"
| "truediv x y =
     (case to_float x of
        Inl e \<Rightarrow> Inl e
      | Inr a \<Rightarrow>
          (case to_float y of
             Inl e \<Rightarrow> Inl e
           | Inr b \<Rightarrow>
               if b = 0 then Inl ZeroDivisionError
               else Inr (PyFloat (round_double (a / b)))))"

text \<open>
  The format specifications \<^verbatim>\<open>:.1f\<close> and \<^verbatim>\<open>:.0f\<close> convert the number to a float and
  show it with the given number of decimals, rounded from its exact value with ties going
  to the even digit. \<open>decimal\<close> is the number shown.
\<close>

definition decimal :: "nat \<Rightarrow> rat \<Rightarrow> rat" where
  "decimal digits x = of_int (round_half_even (x * 10 ^ digits)) / 10 ^ digits"

definition format_f :: "nat \<Rightarrow> number \<Rightarrow> py_error + rat" where
  "format_f digits x =
     (case to_float x of
        Inl e \<Rightarrow> Inl e
      | Inr a \<Rightarrow> Inr (decimal digits a))"

section \<open>The standard library's statistics\<close>

text \<open>
  \<^verbatim>\<open>statistics.median\<close> sorts the data, raises on empty data, returns the middle element
  of an odd number of values and otherwise the sum of the two middle elements divided
  by 2. \<^verbatim>\<open>statistics.mean\<close> raises on empty data; otherwise it divides the exact sum of
  the data by their number and converts the exact quotient: to an integer when the data are
  integers and the quotient is one, and to a float otherwise.
\<close>

definition median :: "number list \<Rightarrow> py_error + number" where
  "median data =
     (let data = sort_key val data; n = length data in
      if n = 0 then Inl StatisticsError
      else if n mod 2 = 1 then Inr (data ! (n div 2))
      else (let i = n div 2 in
            case add (data ! (i - 1)) (data ! i) of
              Inl e \<Rightarrow> Inl e
            | Inr total' \<Rightarrow> truediv total' (PyInt 2)))"

definition mean :: "number list \<Rightarrow> py_error + number" where
  "mean data =
     (let total' = sum_list (map val data); n = length data in
      if n < 1 then Inl StatisticsError
      else (let value = total' / of_nat n in
            if list_all is_int data \<and> of_int \<lfloor>value\<rfloor> = value then Inr (PyInt \<lfloor>value\<rfloor>)
            else if overflows value then Inl OverflowError
            else Inr (PyFloat (round_double value))))"

section \<open>The variables of the script\<close>

text \<open>
  The script keeps its accumulators in module-level variables. The cycle times and the
  iteration counts are integers, the response times are floats. \<open>pulls\<close> counts the items
  taken from the search iterator and \<open>fetches\<close> the calls of \<^verbatim>\<open>repo.get_pull\<close>; the
  script does not hold them, they record its requests to the platform.
\<close>

record script =
  cycle_times :: "int list"
  response_times :: "rat list"
  iteration_counts :: "int list"
  count :: nat
  multiple_reviewer_count :: nat
  total_sampled :: nat
  total_comments :: int
  total_prs :: nat
  stdout :: "line list"
  pulls :: nat
  fetches :: nat

definition start :: script where
  "start = \<lparr>cycle_times = [], response_times = [], iteration_counts = [], count = 0,
     multiple_reviewer_count = 0, total_sampled = 0, total_comments = 0, total_prs = 0,
     stdout = [], pulls = 0, fetches = 0\<rparr>"

definition print :: "line \<Rightarrow> script \<Rightarrow> script" where
  "print l s = s\<lparr>stdout := stdout s @ [l]\<rparr>"

definition get_pull :: "script \<Rightarrow> script" where
  "get_pull s = s\<lparr>fetches := fetches s + 1\<rparr>"

section \<open>Metric 2: cycle time\<close>

definition cycle_time_body :: "pull_request \<Rightarrow> script \<Rightarrow> script" where
  "cycle_time_body pr_obj s =
     (let s1 = get_pull s;
          s2 = (case merged_at pr_obj of
                  Some merged \<Rightarrow>
                    (let cycle_time = (merged - created_at pr_obj) div 86400 in
                     s1\<lparr>cycle_times := cycle_times s1 @ [cycle_time], count := count s1 + 1\<rparr>)
                | None \<Rightarrow> s1)
      in if count s2 mod 50 = 0 then print (Processed (count s2)) s2 else s2)"

fun cycle_time_loop :: "nat \<Rightarrow> pull_request list \<Rightarrow> script \<Rightarrow> script" where
  "cycle_time_loop max_sample [] s = s"
| "cycle_time_loop max_sample (pr # prs) s =
     (let s0 = s\<lparr>pulls := pulls s + 1\<rparr> in
      if count s0 \<ge> max_sample then s0
      else cycle_time_loop max_sample prs (cycle_time_body pr s0))"

definition cycle_time_summary :: "script \<Rightarrow> py_error + script" where
  "cycle_time_summary s =
     (if cycle_times s \<noteq> [] then
        (case median (map PyInt (cycle_times s)) of
           Inl e \<Rightarrow> Inl e
         | Inr med \<Rightarrow>
        (case format_f 1 med of
           Inl e \<Rightarrow> Inl e
         | Inr shown_median \<Rightarrow>
        (case mean (map PyInt (cycle_times s)) of
           Inl e \<Rightarrow> Inl e
         | Inr avg \<Rightarrow>
        (case format_f 1 avg of
           Inl e \<Rightarrow> Inl e
         | Inr shown_mean \<Rightarrow>
             Inr (print (Size ''Sample size'' (length (cycle_times s)))
                   (print (Stat ''Mean PR Cycle Time'' shown_mean)
                     (print (Stat ''Median PR Cycle Time'' shown_median) s)))))))
      else Inr s)"

definition cycle_time_metric :: "nat \<Rightarrow> pull_request list \<Rightarrow> script \<Rightarrow> py_error + script" where
  "cycle_time_metric max_sample prs s =
     cycle_time_summary
       (cycle_time_loop max_sample prs
         (print (Heading ''1. PR Cycle Time (sampling 500 merged PRs)...'') (s\<lparr>cycle_times := [], count := 0\<rparr>)))"

section \<open>Metric 3: response time\<close>

text \<open>
  \<^verbatim>\<open>timedelta.total_seconds()\<close> of a difference of whole seconds: the float nearest to the
  number of seconds. The division by the integer 3600 is a float division.
\<close>

definition total_seconds :: "int \<Rightarrow> rat" where
  "total_seconds td = round_double (of_int td)"

definition first_response_of :: "pull_request \<Rightarrow> timestamp option" where
  "first_response_of pr_obj =
     (let first_response = None;
          first_response = (case get_issue_comments pr_obj of
                              [] \<Rightarrow> first_response
                            | c # _ \<Rightarrow> Some (comment_created_at c))
      in case get_reviews pr_obj of
           [] \<Rightarrow> first_response
         | r # _ \<Rightarrow>
             (let first_review = submitted_at r in
              case first_response of
                None \<Rightarrow> Some first_review
              | Some fr \<Rightarrow> if first_review < fr then Some first_review else Some fr))"

definition response_time_body :: "pull_request \<Rightarrow> script \<Rightarrow> script" where
  "response_time_body pr_obj s =
     (let s1 = get_pull s;
          s2 = (case first_response_of pr_obj of
                  Some first_response \<Rightarrow>
                    if first_response > created_at pr_obj then
                      (let response_time =
                             round_double (total_seconds (first_response - created_at pr_obj) / 3600) in
                       s1\<lparr>response_times := response_times s1 @ [response_time]\<rparr>)
                    else s1
                | None \<Rightarrow> s1);
          s3 = s2\<lparr>count := count s2 + 1\<rparr>
      in if count s3 mod 50 = 0 then print (Processed (count s3)) s3 else s3)"

fun response_time_loop :: "nat \<Rightarrow> pull_request list \<Rightarrow> script \<Rightarrow> script" where
  "response_time_loop max_sample [] s = s"
| "response_time_loop max_sample (pr # prs) s =
     (let s0 = s\<lparr>pulls := pulls s + 1\<rparr> in
      if count s0 \<ge> max_sample then s0
      else response_time_loop max_sample prs (response_time_body pr s0))"

definition response_time_summary :: "script \<Rightarrow> py_error + script" where
  "response_time_summary s =
     (if response_times s \<noteq> [] then
        (case median (map PyFloat (response_times s)) of
           Inl e \<Rightarrow> Inl e
         | Inr med \<Rightarrow>
        (case truediv med (PyInt 24) of
           Inl e \<Rightarrow> Inl e
         | Inr median_days \<Rightarrow>
        (case format_f 1 median_days of
           Inl e \<Rightarrow> Inl e
         | Inr shown_median \<Rightarrow>
        (case mean (map PyFloat (response_times s)) of
           Inl e \<Rightarrow> Inl e
         | Inr avg \<Rightarrow>
        (case truediv avg (PyInt 24) of
           Inl e \<Rightarrow> Inl e
         | Inr mean_days \<Rightarrow>
        (case format_f 1 mean_days of
           Inl e \<Rightarrow> Inl e
         | Inr shown_mean \<Rightarrow>
             Inr (print (Stat ''Mean PR Response Time'' shown_mean)
                   (print (Stat ''Median PR Response Time'' shown_median) s))))))))
      else Inr s)"

definition response_time_metric :: "nat \<Rightarrow> pull_request list \<Rightarrow> script \<Rightarrow> py_error + script" where
  "response_time_metric max_sample prs s =
     response_time_summary
       (response_time_loop max_sample prs
         (print (Heading ''2. PR Response Time (sampling 300 PRs)...'') (s\<lparr>response_times := [], count := 0\<rparr>)))"

section \<open>Metric 4: iteration count\<close>

definition iteration_count_body :: "pull_request \<Rightarrow> script \<Rightarrow> script" where
  "iteration_count_body pr_obj s =
     (let s1 = get_pull s;
          s2 = s1\<lparr>iteration_counts := iteration_counts s1 @ [commits pr_obj],
                  count := count s1 + 1\<rparr>
      in if count s2 mod 50 = 0 then print (Processed (count s2)) s2 else s2)"

fun iteration_count_loop :: "nat \<Rightarrow> pull_request list \<Rightarrow> script \<Rightarrow> script" where
  "iteration_count_loop max_sample [] s = s"
| "iteration_count_loop max_sample (pr # prs) s =
     (let s0 = s\<lparr>pulls := pulls s + 1\<rparr> in
      if count s0 \<ge> max_sample then s0
      else iteration_count_loop max_sample prs (iteration_count_body pr s0))"

definition iteration_count_summary :: "script \<Rightarrow> py_error + script" where
  "iteration_count_summary s =
     (if iteration_counts s \<noteq> [] then
        (case mean (map PyInt (iteration_counts s)) of
           Inl e \<Rightarrow> Inl e
         | Inr avg \<Rightarrow>
        (case format_f 1 avg of
           Inl e \<Rightarrow> Inl e
         | Inr shown_mean \<Rightarrow>
        (case median (map PyInt (iteration_counts s)) of
           Inl e \<Rightarrow> Inl e
         | Inr med \<Rightarrow>
        (case format_f 0 med of
           Inl e \<Rightarrow> Inl e
         | Inr shown_median \<Rightarrow>
             Inr (print (Stat ''Median PR Iteration Count'' shown_median)
                   (print (Stat ''Average PR Iteration Count'' shown_mean) s))))))
      else Inr s)"

definition iteration_count_metric :: "nat \<Rightarrow> pull_request list \<Rightarrow> script \<Rightarrow> py_error + script" where
  "iteration_count_metric max_sample prs s =
     iteration_count_summary
       (iteration_count_loop max_sample prs
         (print (Heading ''3. PR Iteration Count (sampling 300 merged PRs)...'') (s\<lparr>iteration_counts := [], count := 0\<rparr>)))"

section \<open>Metric 5: review coverage\<close>

fun add_reviewers :: "review list \<Rightarrow> string set \<Rightarrow> string set" where
  "add_reviewers [] reviewers = reviewers"
| "add_reviewers (r # rs) reviewers =
     add_reviewers rs (case user r of Some login \<Rightarrow> insert login reviewers | None \<Rightarrow> reviewers)"

definition review_coverage_body :: "pull_request \<Rightarrow> script \<Rightarrow> script" where
  "review_coverage_body pr_obj s =
     (let s1 = get_pull s;
          reviewers = add_reviewers (get_reviews pr_obj) {};
          s2 = (if card reviewers \<ge> 2
                then s1\<lparr>multiple_reviewer_count := multiple_reviewer_count s1 + 1\<rparr> else s1);
          s3 = s2\<lparr>total_sampled := total_sampled s2 + 1\<rparr>
      in if total_sampled s3 mod 50 = 0 then print (Processed (total_sampled s3)) s3 else s3)"

fun review_coverage_loop :: "nat \<Rightarrow> pull_request list \<Rightarrow> script \<Rightarrow> script" where
  "review_coverage_loop max_sample [] s = s"
| "review_coverage_loop max_sample (pr # prs) s =
     (let s0 = s\<lparr>pulls := pulls s + 1\<rparr> in
      if total_sampled s0 \<ge> max_sample then s0
      else review_coverage_loop max_sample prs (review_coverage_body pr s0))"

definition review_coverage_summary :: "script \<Rightarrow> py_error + script" where
  "review_coverage_summary s =
     (case truediv (PyInt (int (multiple_reviewer_count s))) (PyInt (int (total_sampled s))) of
        Inl e \<Rightarrow> Inl e
      | Inr ratio \<Rightarrow>
     (case mul ratio (PyInt 100) of
        Inl e \<Rightarrow> Inl e
      | Inr review_coverage \<Rightarrow>
     (case format_f 1 review_coverage of
        Inl e \<Rightarrow> Inl e
      | Inr shown \<Rightarrow>
          Inr (print (Ratio ''PRs with 2+ reviewers'' (multiple_reviewer_count s) (total_sampled s))
                (print (Stat ''Review Coverage'' shown) s)))))"

definition review_coverage_metric :: "nat \<Rightarrow> pull_request list \<Rightarrow> script \<Rightarrow> py_error + script" where
  "review_coverage_metric max_sample prs s =
     review_coverage_summary
       (review_coverage_loop max_sample prs
         (print (Heading ''4. Review Coverage (sampling 300 merged PRs)...'')
            (s\<lparr>multiple_reviewer_count := 0, total_sampled := 0\<rparr>)))"

section \<open>Metric 6: review comment depth\<close>

definition comment_depth_body :: "pull_request \<Rightarrow> script \<Rightarrow> script" where
  "comment_depth_body pr_obj s =
     (let s1 = get_pull s;
          s2 = s1\<lparr>total_comments := total_comments s1 + (comments pr_obj + review_comments pr_obj),
                  total_prs := total_prs s1 + 1\<rparr>
      in if total_prs s2 mod 50 = 0 then print (Processed (total_prs s2)) s2 else s2)"

fun comment_depth_loop :: "nat \<Rightarrow> pull_request list \<Rightarrow> script \<Rightarrow> script" where
  "comment_depth_loop max_sample [] s = s"
| "comment_depth_loop max_sample (pr # prs) s =
     (let s0 = s\<lparr>pulls := pulls s + 1\<rparr> in
      if total_prs s0 \<ge> max_sample then s0
      else comment_depth_loop max_sample prs (comment_depth_body pr s0))"

definition comment_depth_summary :: "script \<Rightarrow> py_error + script" where
  "comment_depth_summary s =
     (case truediv (PyInt (total_comments s)) (PyInt (int (total_prs s))) of
        Inl e \<Rightarrow> Inl e
      | Inr avg_comments \<Rightarrow>
     (case format_f 1 avg_comments of
        Inl e \<Rightarrow> Inl e
      | Inr shown \<Rightarrow>
          Inr (print (Size ''Sample size'' (total_prs s))
                (print (Stat ''Average Review Comments per PR'' shown) s))))"

definition comment_depth_metric :: "nat \<Rightarrow> pull_request list \<Rightarrow> script \<Rightarrow> py_error + script" where
  "comment_depth_metric max_sample prs s =
     comment_depth_summary
       (comment_depth_loop max_sample prs
         (print (Heading ''5. Review Comment Depth (sampling 200 PRs)...'') (s\<lparr>total_comments := 0, total_prs := 0\<rparr>)))"

section \<open>The script\<close>

text \<open>
  The script runs the five metrics in sequence with sample caps of 500, 300, 300, 300 and
  200. Each metric issues its own search; the five search results are the parameters. An
  exception ends the script.
\<close>

definition main ::
  "pull_request list \<Rightarrow> pull_request list \<Rightarrow> pull_request list \<Rightarrow> pull_request list
     \<Rightarrow> pull_request list \<Rightarrow> py_error + script" where
  "main prs1 prs2 prs3 prs4 prs5 =
     (let s0 = print (Heading (replicate 50 CHR ''=''))
                 (print (Heading ''Fast Metrics Collection'') start)
      in case cycle_time_metric 500 prs1 s0 of
           Inl e \<Rightarrow> Inl e
         | Inr s1 \<Rightarrow>
        (case response_time_metric 300 prs2 s1 of
           Inl e \<Rightarrow> Inl e
         | Inr s2 \<Rightarrow>
        (case iteration_count_metric 300 prs3 s2 of
           Inl e \<Rightarrow> Inl e
         | Inr s3 \<Rightarrow>
        (case review_coverage_metric 300 prs4 s3 of
           Inl e \<Rightarrow> Inl e
         | Inr s4 \<Rightarrow>
        (case comment_depth_metric 200 prs5 s4 of
           Inl e \<Rightarrow> Inl e
         | Inr s5 \<Rightarrow>
             Inr (print (Heading ''Collection complete! (Took ~10-15 minutes)'')
                   (print (Heading (replicate 50 CHR ''='')) s5)))))))"

section \<open>Vocabulary of the properties\<close>

text \<open>
  An item is extractable for the cycle-time metric when its detail record has a merge
  timestamp; \<open>cycle_time_of\<close> is the observation such an item yields, as a list of
  zero or one element.
\<close>

definition extractable :: "pull_request \<Rightarrow> bool" where
  "extractable pr_obj = (merged_at pr_obj \<noteq> None)"

definition cycle_time_of :: "pull_request \<Rightarrow> int list" where
  "cycle_time_of pr_obj =
     (case merged_at pr_obj of
        Some merged \<Rightarrow> [(merged - created_at pr_obj) div 86400]
      | None \<Rightarrow> [])"

text \<open>
  \<open>response_time_of\<close> is the observation an item yields for the response-time metric,
  in hours, as a list of zero or one element.
\<close>

definition response_time_of :: "pull_request \<Rightarrow> rat list" where
  "response_time_of pr_obj =
     (case first_response_of pr_obj of
        Some first_response \<Rightarrow>
          if first_response > created_at pr_obj
          then [round_double (total_seconds (first_response - created_at pr_obj) / 3600)]
          else []
      | None \<Rightarrow> [])"

text \<open>
  The statistical median in the words of the specification: the middle value of the sorted
  sequence, and for a sequence of even length the average of its two middle values. The
  arithmetic mean is the sum divided by the number of values.
\<close>

definition statistical_median :: "rat list \<Rightarrow> rat" where
  "statistical_median xs =
     (if even (length xs)
      then (sort xs ! (length xs div 2 - 1) + sort xs ! (length xs div 2)) / 2
      else sort xs ! (length xs div 2))"

definition arithmetic_mean :: "rat list \<Rightarrow> rat" where
  "arithmetic_mean xs = sum_list xs / of_nat (length xs)"

text \<open>A pull request created at time 0, open, without comments or reviews.\<close>

definition pr0 :: pull_request where
  "pr0 = \<lparr>created_at = 0, merged_at = None, get_issue_comments = [], get_reviews = [],
     commits = 1, comments = 0, review_comments = 0\<rparr>"

section \<open>The cycle-time loop\<close>

lemma cycle_time_body_fetches: "fetches (cycle_time_body pr s) = fetches s + 1"
  by (simp add: cycle_time_body_def get_pull_def print_def Let_def split: option.splits)

lemma cycle_time_body_pulls: "pulls (cycle_time_body pr s) = pulls s"
  by (simp add: cycle_time_body_def get_pull_def print_def Let_def split: option.splits)

lemma cycle_time_body_count:
  "count (cycle_time_body pr s) = count s + (if extractable pr then 1 else 0)"
  by (simp add: cycle_time_body_def get_pull_def print_def Let_def extractable_def
      split: option.splits)

lemma cycle_time_body_cycle_times:
  "cycle_times (cycle_time_body pr s) = cycle_times s @ cycle_time_of pr"
  by (simp add: cycle_time_body_def get_pull_def print_def Let_def cycle_time_of_def
      split: option.splits)

lemma length_cycle_time_of: "length (cycle_time_of pr) = (if extractable pr then 1 else 0)"
  by (simp add: cycle_time_of_def extractable_def split: option.splits)

lemmas cycle_time_body_simps =
  cycle_time_body_fetches cycle_time_body_pulls cycle_time_body_count
  cycle_time_body_cycle_times

lemma cycle_time_loop_break:
  "m \<le> count s \<Longrightarrow> cycle_time_loop m (pr # prs) s = s\<lparr>pulls := pulls s + 1\<rparr>"
  by (simp add: Let_def)

lemma cycle_time_loop_step:
  "count s < m \<Longrightarrow>
   cycle_time_loop m (pr # prs) s =
   cycle_time_loop m prs (cycle_time_body pr (s\<lparr>pulls := pulls s + 1\<rparr>))"
  by (simp add: Let_def)

declare cycle_time_loop.simps(2) [simp del]

lemma cycle_time_loop_fetches_mono: "fetches s \<le> fetches (cycle_time_loop m prs s)"
proof (induction prs arbitrary: s)
  case Nil
  show ?case by simp
next
  case (Cons pr prs)
  let ?b = "cycle_time_body pr (s\<lparr>pulls := pulls s + 1\<rparr>)"
  show ?case
  proof (cases "m \<le> count s")
    case True
    then show ?thesis by (simp add: cycle_time_loop_break)
  next
    case False
    then have lt: "count s < m" by simp
    have "fetches ?b \<le> fetches (cycle_time_loop m prs ?b)" by (rule Cons.IH)
    then show ?thesis by (simp add: cycle_time_loop_step [OF lt] cycle_time_body_simps)
  qed
qed

lemma cycle_time_loop_Cons_fetches:
  assumes "count s < m"
  shows "fetches (cycle_time_loop m (pr # prs) s) - fetches s =
     Suc (fetches (cycle_time_loop m prs (cycle_time_body pr (s\<lparr>pulls := pulls s + 1\<rparr>)))
          - fetches (cycle_time_body pr (s\<lparr>pulls := pulls s + 1\<rparr>)))"
  using cycle_time_loop_fetches_mono [of "cycle_time_body pr (s\<lparr>pulls := pulls s + 1\<rparr>)" m prs]
  by (simp add: cycle_time_loop_step [OF assms] cycle_time_body_simps)

lemma cycle_time_loop_processed:
  "fetches (cycle_time_loop m prs s) - fetches s \<le> length prs"
proof (induction prs arbitrary: s)
  case Nil
  show ?case by simp
next
  case (Cons pr prs)
  let ?b = "cycle_time_body pr (s\<lparr>pulls := pulls s + 1\<rparr>)"
  show ?case
  proof (cases "m \<le> count s")
    case True
    then show ?thesis by (simp add: cycle_time_loop_break)
  next
    case False
    then have lt: "count s < m" by simp
    have "fetches (cycle_time_loop m prs ?b) - fetches ?b \<le> length prs" by (rule Cons.IH)
    then show ?thesis by (simp add: cycle_time_loop_Cons_fetches [OF lt])
  qed
qed

lemma cycle_time_loop_cycle_times:
  "cycle_times (cycle_time_loop m prs s) =
   cycle_times s @ concat (map cycle_time_of (take (fetches (cycle_time_loop m prs s) - fetches s) prs))"
proof (induction prs arbitrary: s)
  case Nil
  show ?case by simp
next
  case (Cons pr prs)
  let ?b = "cycle_time_body pr (s\<lparr>pulls := pulls s + 1\<rparr>)"
  show ?case
  proof (cases "m \<le> count s")
    case True
    then show ?thesis by (simp add: cycle_time_loop_break)
  next
    case False
    then have lt: "count s < m" by simp
    have "cycle_times (cycle_time_loop m prs ?b) =
      cycle_times ?b @ concat (map cycle_time_of (take (fetches (cycle_time_loop m prs ?b) - fetches ?b) prs))"
      by (rule Cons.IH)
    then show ?thesis
      unfolding cycle_time_loop_Cons_fetches [OF lt]
      unfolding cycle_time_loop_step [OF lt]
      by (simp add: cycle_time_body_simps)
  qed
qed

lemma cycle_time_loop_count:
  "count (cycle_time_loop m prs s) =
   count s + length (filter extractable (take (fetches (cycle_time_loop m prs s) - fetches s) prs))"
proof (induction prs arbitrary: s)
  case Nil
  show ?case by simp
next
  case (Cons pr prs)
  let ?b = "cycle_time_body pr (s\<lparr>pulls := pulls s + 1\<rparr>)"
  show ?case
  proof (cases "m \<le> count s")
    case True
    then show ?thesis by (simp add: cycle_time_loop_break)
  next
    case False
    then have lt: "count s < m" by simp
    have "count (cycle_time_loop m prs ?b) =
      count ?b + length (filter extractable (take (fetches (cycle_time_loop m prs ?b) - fetches ?b) prs))"
      by (rule Cons.IH)
    then show ?thesis
      unfolding cycle_time_loop_Cons_fetches [OF lt]
      unfolding cycle_time_loop_step [OF lt]
      by (simp add: cycle_time_body_simps)
  qed
qed

lemma cycle_time_loop_below_cap:
  "j < fetches (cycle_time_loop m prs s) - fetches s \<Longrightarrow>
   count s + length (filter extractable (take j prs)) < m"
proof (induction prs arbitrary: s j)
  case Nil
  then show ?case by simp
next
  case (Cons pr prs)
  let ?b = "cycle_time_body pr (s\<lparr>pulls := pulls s + 1\<rparr>)"
  show ?case
  proof (cases "m \<le> count s")
    case True
    with Cons.prems show ?thesis by (simp add: cycle_time_loop_break)
  next
    case False
    then have lt: "count s < m" by simp
    show ?thesis
    proof (cases j)
      case 0
      with lt show ?thesis by simp
    next
      case (Suc i)
      with Cons.prems have "i < fetches (cycle_time_loop m prs ?b) - fetches ?b"
        by (simp add: cycle_time_loop_Cons_fetches [OF lt])
      then have "count ?b + length (filter extractable (take i prs)) < m"
        by (rule Cons.IH)
      with Suc show ?thesis by (simp add: cycle_time_body_simps split: if_splits)
    qed
  qed
qed

lemma cycle_time_loop_pulls:
  "pulls (cycle_time_loop m prs s) =
   pulls s + (if fetches (cycle_time_loop m prs s) - fetches s < length prs
              then fetches (cycle_time_loop m prs s) - fetches s + 1
              else fetches (cycle_time_loop m prs s) - fetches s)"
proof (induction prs arbitrary: s)
  case Nil
  show ?case by simp
next
  case (Cons pr prs)
  let ?b = "cycle_time_body pr (s\<lparr>pulls := pulls s + 1\<rparr>)"
  show ?case
  proof (cases "m \<le> count s")
    case True
    then show ?thesis by (simp add: cycle_time_loop_break)
  next
    case False
    then have lt: "count s < m" by simp
    have "pulls (cycle_time_loop m prs ?b) =
      pulls ?b + (if fetches (cycle_time_loop m prs ?b) - fetches ?b < length prs
              then fetches (cycle_time_loop m prs ?b) - fetches ?b + 1
              else fetches (cycle_time_loop m prs ?b) - fetches ?b)"
      by (rule Cons.IH)
    then show ?thesis
      unfolding cycle_time_loop_Cons_fetches [OF lt]
      unfolding cycle_time_loop_step [OF lt]
      by (simp add: cycle_time_body_simps)
  qed
qed

lemma cycle_time_loop_stops_at_cap:
  "fetches (cycle_time_loop m prs s) - fetches s < length prs \<Longrightarrow>
   m \<le> count (cycle_time_loop m prs s)"
proof (induction prs arbitrary: s)
  case Nil
  then show ?case by simp
next
  case (Cons pr prs)
  let ?b = "cycle_time_body pr (s\<lparr>pulls := pulls s + 1\<rparr>)"
  show ?case
  proof (cases "m \<le> count s")
    case True
    then show ?thesis by (simp add: cycle_time_loop_break)
  next
    case False
    then have lt: "count s < m" by simp
    from Cons.prems have "fetches (cycle_time_loop m prs ?b) - fetches ?b < length prs"
      by (simp add: cycle_time_loop_Cons_fetches [OF lt])
    then have "m \<le> count (cycle_time_loop m prs ?b)" by (rule Cons.IH)
    then show ?thesis by (simp add: cycle_time_loop_step [OF lt])
  qed
qed

lemma cycle_time_loop_count_min:
  "count s \<le> m \<Longrightarrow>
   count (cycle_time_loop m prs s) = min m (count s + length (filter extractable prs))"
proof (induction prs arbitrary: s)
  case Nil
  then show ?case by simp
next
  case (Cons pr prs)
  let ?b = "cycle_time_body pr (s\<lparr>pulls := pulls s + 1\<rparr>)"
  show ?case
  proof (cases "m \<le> count s")
    case True
    with Cons.prems show ?thesis by (simp add: cycle_time_loop_break)
  next
    case False
    then have lt: "count s < m" by simp
    then have "count ?b \<le> m" by (simp add: cycle_time_body_simps)
    then have "count (cycle_time_loop m prs ?b) = min m (count ?b + length (filter extractable prs))"
      by (rule Cons.IH)
    with lt show ?thesis by (simp add: cycle_time_loop_step [OF lt] cycle_time_body_simps)
  qed
qed

section \<open>The loops that count every item\<close>

lemma multiples_upto:
  "filter (\<lambda>c. c mod 50 = 0) [1..<Suc n] = map (\<lambda>k. 50 * k) [1..<Suc (n div 50)]"
proof (induction n)
  case 0
  show ?case by simp
next
  case (Suc n)
  have split: "[1..<Suc (Suc n)] = [1..<Suc n] @ [Suc n]" by simp
  show ?case
  proof (cases "Suc n mod 50 = 0")
    case True
    then have d: "Suc n div 50 = Suc (n div 50)" by (simp add: div_Suc)
    have "50 * (Suc n div 50) + Suc n mod 50 = Suc n" by (rule mult_div_mod_eq)
    with True d have e: "50 * Suc (n div 50) = Suc n" by simp
    have "[1..<Suc (Suc (n div 50))] = [1..<Suc (n div 50)] @ [Suc (n div 50)]" by simp
    then have "map (\<lambda>k. 50 * k) [1..<Suc (Suc n div 50)]
        = map (\<lambda>k. 50 * k) [1..<Suc (n div 50)] @ [Suc n]"
      unfolding d using e by simp
    moreover have "filter (\<lambda>c. c mod 50 = 0) [1..<Suc (Suc n)]
        = filter (\<lambda>c. c mod 50 = 0) [1..<Suc n] @ [Suc n]"
      unfolding split using True by simp
    ultimately show ?thesis using Suc.IH by simp
  next
    case False
    then have d: "Suc n div 50 = n div 50" by (simp add: div_Suc)
    have "filter (\<lambda>c. c mod 50 = 0) [1..<Suc (Suc n)]
        = filter (\<lambda>c. c mod 50 = 0) [1..<Suc n]"
      unfolding split using False by simp
    then show ?thesis using Suc.IH by (simp only: d)
  qed
qed


subsection \<open>The loop of response time\<close>

lemma response_time_body_fetches: "fetches (response_time_body pr s) = fetches s + 1"
  by (simp add: response_time_body_def get_pull_def print_def Let_def split: option.splits)

lemma response_time_body_pulls: "pulls (response_time_body pr s) = pulls s"
  by (simp add: response_time_body_def get_pull_def print_def Let_def split: option.splits)

lemma response_time_body_count: "count (response_time_body pr s) = count s + 1"
  by (simp add: response_time_body_def get_pull_def print_def Let_def split: option.splits)

lemma response_time_body_stdout:
  "stdout (response_time_body pr s) =
   stdout s @ (if (count s + 1) mod 50 = 0 then [Processed (count s + 1)] else [])"
  by (simp add: response_time_body_def get_pull_def print_def Let_def split: option.splits)

lemmas response_time_body_simps =
  response_time_body_fetches response_time_body_pulls response_time_body_count
  response_time_body_stdout

lemma response_time_loop_break:
  "m \<le> count s \<Longrightarrow> response_time_loop m (pr # prs) s = s\<lparr>pulls := pulls s + 1\<rparr>"
  by (simp add: Let_def)

lemma response_time_loop_step:
  "count s < m \<Longrightarrow>
   response_time_loop m (pr # prs) s =
   response_time_loop m prs (response_time_body pr (s\<lparr>pulls := pulls s + 1\<rparr>))"
  by (simp add: Let_def)

declare response_time_loop.simps(2) [simp del]

lemma response_time_loop_count:
  "count s \<le> m \<Longrightarrow> count (response_time_loop m prs s) = min m (count s + length prs)"
proof (induction prs arbitrary: s)
  case Nil
  then show ?case by simp
next
  case (Cons pr prs)
  let ?b = "response_time_body pr (s\<lparr>pulls := pulls s + 1\<rparr>)"
  show ?case
  proof (cases "m \<le> count s")
    case True
    with Cons.prems show ?thesis by (simp add: response_time_loop_break)
  next
    case False
    then have lt: "count s < m" by simp
    then have "count ?b \<le> m" by (simp add: response_time_body_simps)
    then have "count (response_time_loop m prs ?b) = min m (count ?b + length prs)"
      by (rule Cons.IH)
    then show ?thesis by (simp add: response_time_loop_step [OF lt] response_time_body_simps)
  qed
qed

lemma response_time_loop_fetches:
  "count s \<le> m \<Longrightarrow>
   fetches (response_time_loop m prs s) + count s = fetches s + min m (count s + length prs)"
proof (induction prs arbitrary: s)
  case Nil
  then show ?case by simp
next
  case (Cons pr prs)
  let ?b = "response_time_body pr (s\<lparr>pulls := pulls s + 1\<rparr>)"
  show ?case
  proof (cases "m \<le> count s")
    case True
    with Cons.prems show ?thesis by (simp add: response_time_loop_break)
  next
    case False
    then have lt: "count s < m" by simp
    then have "count ?b \<le> m" by (simp add: response_time_body_simps)
    then have "fetches (response_time_loop m prs ?b) + count ?b =
        fetches ?b + min m (count ?b + length prs)"
      by (rule Cons.IH)
    then show ?thesis
      by (simp add: response_time_loop_step [OF lt] response_time_body_simps)
  qed
qed

lemma response_time_loop_pulls:
  "count s \<le> m \<Longrightarrow>
   pulls (response_time_loop m prs s) + count s =
   pulls s + (if m < count s + length prs then m + 1 else count s + length prs)"
proof (induction prs arbitrary: s)
  case Nil
  then show ?case by simp
next
  case (Cons pr prs)
  let ?b = "response_time_body pr (s\<lparr>pulls := pulls s + 1\<rparr>)"
  show ?case
  proof (cases "m \<le> count s")
    case True
    with Cons.prems show ?thesis by (simp add: response_time_loop_break)
  next
    case False
    then have lt: "count s < m" by simp
    then have "count ?b \<le> m" by (simp add: response_time_body_simps)
    then have "pulls (response_time_loop m prs ?b) + count ?b =
        pulls ?b + (if m < count ?b + length prs then m + 1 else count ?b + length prs)"
      by (rule Cons.IH)
    then show ?thesis
      by (simp add: response_time_loop_step [OF lt] response_time_body_simps split: if_splits)
  qed
qed

lemma response_time_loop_stdout:
  "count s \<le> m \<Longrightarrow>
   stdout (response_time_loop m prs s) =
   stdout s @ map Processed (filter (\<lambda>c. c mod 50 = 0)
                 [count s + 1..<min m (count s + length prs) + 1])"
proof (induction prs arbitrary: s)
  case Nil
  then show ?case by simp
next
  case (Cons pr prs)
  let ?b = "response_time_body pr (s\<lparr>pulls := pulls s + 1\<rparr>)"
  show ?case
  proof (cases "m \<le> count s")
    case True
    with Cons.prems show ?thesis by (simp add: response_time_loop_break)
  next
    case False
    then have lt: "count s < m" by simp
    then have "count ?b \<le> m" by (simp add: response_time_body_simps)
    then have ih: "stdout (response_time_loop m prs ?b) =
        stdout ?b @ map Processed (filter (\<lambda>c. c mod 50 = 0)
                 [count ?b + 1..<min m (count ?b + length prs) + 1])"
      by (rule Cons.IH)
    have "Suc (count s) < Suc (min m (Suc (count s) + length prs))" using lt by simp
    then have u: "[Suc (count s)..<Suc (min m (Suc (count s) + length prs))] =
       Suc (count s) # [Suc (Suc (count s))..<Suc (min m (Suc (count s) + length prs))]"
      by (rule upt_conv_Cons)
    have "stdout (response_time_loop m (pr # prs) s) =
       stdout ?b @ map Processed (filter (\<lambda>c. c mod 50 = 0)
                 [Suc (Suc (count s))..<Suc (min m (Suc (count s) + length prs))])"
      using ih by (simp add: response_time_loop_step [OF lt] response_time_body_count)
    also have "\<dots> = stdout s @ map Processed (filter (\<lambda>c. c mod 50 = 0)
                 [Suc (count s)..<Suc (min m (Suc (count s) + length prs))])"
      unfolding u by (simp add: response_time_body_stdout)
    finally show ?thesis by simp
  qed
qed

subsection \<open>The loop of iteration count\<close>

lemma iteration_count_body_fetches: "fetches (iteration_count_body pr s) = fetches s + 1"
  by (simp add: iteration_count_body_def get_pull_def print_def Let_def split: option.splits)

lemma iteration_count_body_pulls: "pulls (iteration_count_body pr s) = pulls s"
  by (simp add: iteration_count_body_def get_pull_def print_def Let_def split: option.splits)

lemma iteration_count_body_count: "count (iteration_count_body pr s) = count s + 1"
  by (simp add: iteration_count_body_def get_pull_def print_def Let_def split: option.splits)

lemma iteration_count_body_stdout:
  "stdout (iteration_count_body pr s) =
   stdout s @ (if (count s + 1) mod 50 = 0 then [Processed (count s + 1)] else [])"
  by (simp add: iteration_count_body_def get_pull_def print_def Let_def split: option.splits)

lemmas iteration_count_body_simps =
  iteration_count_body_fetches iteration_count_body_pulls iteration_count_body_count
  iteration_count_body_stdout

lemma iteration_count_loop_break:
  "m \<le> count s \<Longrightarrow> iteration_count_loop m (pr # prs) s = s\<lparr>pulls := pulls s + 1\<rparr>"
  by (simp add: Let_def)

lemma iteration_count_loop_step:
  "count s < m \<Longrightarrow>
   iteration_count_loop m (pr # prs) s =
   iteration_count_loop m prs (iteration_count_body pr (s\<lparr>pulls := pulls s + 1\<rparr>))"
  by (simp add: Let_def)

declare iteration_count_loop.simps(2) [simp del]

lemma iteration_count_loop_count:
  "count s \<le> m \<Longrightarrow> count (iteration_count_loop m prs s) = min m (count s + length prs)"
proof (induction prs arbitrary: s)
  case Nil
  then show ?case by simp
next
  case (Cons pr prs)
  let ?b = "iteration_count_body pr (s\<lparr>pulls := pulls s + 1\<rparr>)"
  show ?case
  proof (cases "m \<le> count s")
    case True
    with Cons.prems show ?thesis by (simp add: iteration_count_loop_break)
  next
    case False
    then have lt: "count s < m" by simp
    then have "count ?b \<le> m" by (simp add: iteration_count_body_simps)
    then have "count (iteration_count_loop m prs ?b) = min m (count ?b + length prs)"
      by (rule Cons.IH)
    then show ?thesis by (simp add: iteration_count_loop_step [OF lt] iteration_count_body_simps)
  qed
qed

lemma iteration_count_loop_fetches:
  "count s \<le> m \<Longrightarrow>
   fetches (iteration_count_loop m prs s) + count s = fetches s + min m (count s + length prs)"
proof (induction prs arbitrary: s)
  case Nil
  then show ?case by simp
next
  case (Cons pr prs)
  let ?b = "iteration_count_body pr (s\<lparr>pulls := pulls s + 1\<rparr>)"
  show ?case
  proof (cases "m \<le> count s")
    case True
    with Cons.prems show ?thesis by (simp add: iteration_count_loop_break)
  next
    case False
    then have lt: "count s < m" by simp
    then have "count ?b \<le> m" by (simp add: iteration_count_body_simps)
    then have "fetches (iteration_count_loop m prs ?b) + count ?b =
        fetches ?b + min m (count ?b + length prs)"
      by (rule Cons.IH)
    then show ?thesis
      by (simp add: iteration_count_loop_step [OF lt] iteration_count_body_simps)
  qed
qed

lemma iteration_count_loop_pulls:
  "count s \<le> m \<Longrightarrow>
   pulls (iteration_count_loop m prs s) + count s =
   pulls s + (if m < count s + length prs then m + 1 else count s + length prs)"
proof (induction prs arbitrary: s)
  case Nil
  then show ?case by simp
next
  case (Cons pr prs)
  let ?b = "iteration_count_body pr (s\<lparr>pulls := pulls s + 1\<rparr>)"
  show ?case
  proof (cases "m \<le> count s")
    case True
    with Cons.prems show ?thesis by (simp add: iteration_count_loop_break)
  next
    case False
    then have lt: "count s < m" by simp
    then have "count ?b \<le> m" by (simp add: iteration_count_body_simps)
    then have "pulls (iteration_count_loop m prs ?b) + count ?b =
        pulls ?b + (if m < count ?b + length prs then m + 1 else count ?b + length prs)"
      by (rule Cons.IH)
    then show ?thesis
      by (simp add: iteration_count_loop_step [OF lt] iteration_count_body_simps split: if_splits)
  qed
qed

lemma iteration_count_loop_stdout:
  "count s \<le> m \<Longrightarrow>
   stdout (iteration_count_loop m prs s) =
   stdout s @ map Processed (filter (\<lambda>c. c mod 50 = 0)
                 [count s + 1..<min m (count s + length prs) + 1])"
proof (induction prs arbitrary: s)
  case Nil
  then show ?case by simp
next
  case (Cons pr prs)
  let ?b = "iteration_count_body pr (s\<lparr>pulls := pulls s + 1\<rparr>)"
  show ?case
  proof (cases "m \<le> count s")
    case True
    with Cons.prems show ?thesis by (simp add: iteration_count_loop_break)
  next
    case False
    then have lt: "count s < m" by simp
    then have "count ?b \<le> m" by (simp add: iteration_count_body_simps)
    then have ih: "stdout (iteration_count_loop m prs ?b) =
        stdout ?b @ map Processed (filter (\<lambda>c. c mod 50 = 0)
                 [count ?b + 1..<min m (count ?b + length prs) + 1])"
      by (rule Cons.IH)
    have "Suc (count s) < Suc (min m (Suc (count s) + length prs))" using lt by simp
    then have u: "[Suc (count s)..<Suc (min m (Suc (count s) + length prs))] =
       Suc (count s) # [Suc (Suc (count s))..<Suc (min m (Suc (count s) + length prs))]"
      by (rule upt_conv_Cons)
    have "stdout (iteration_count_loop m (pr # prs) s) =
       stdout ?b @ map Processed (filter (\<lambda>c. c mod 50 = 0)
                 [Suc (Suc (count s))..<Suc (min m (Suc (count s) + length prs))])"
      using ih by (simp add: iteration_count_loop_step [OF lt] iteration_count_body_count)
    also have "\<dots> = stdout s @ map Processed (filter (\<lambda>c. c mod 50 = 0)
                 [Suc (count s)..<Suc (min m (Suc (count s) + length prs))])"
      unfolding u by (simp add: iteration_count_body_stdout)
    finally show ?thesis by simp
  qed
qed

subsection \<open>The loop of review coverage\<close>

lemma review_coverage_body_fetches: "fetches (review_coverage_body pr s) = fetches s + 1"
  by (simp add: review_coverage_body_def get_pull_def print_def Let_def split: option.splits)

lemma review_coverage_body_pulls: "pulls (review_coverage_body pr s) = pulls s"
  by (simp add: review_coverage_body_def get_pull_def print_def Let_def split: option.splits)

lemma review_coverage_body_count: "total_sampled (review_coverage_body pr s) = total_sampled s + 1"
  by (simp add: review_coverage_body_def get_pull_def print_def Let_def split: option.splits)

lemma review_coverage_body_stdout:
  "stdout (review_coverage_body pr s) =
   stdout s @ (if (total_sampled s + 1) mod 50 = 0 then [Processed (total_sampled s + 1)] else [])"
  by (simp add: review_coverage_body_def get_pull_def print_def Let_def split: option.splits)

lemmas review_coverage_body_simps =
  review_coverage_body_fetches review_coverage_body_pulls review_coverage_body_count
  review_coverage_body_stdout

lemma review_coverage_loop_break:
  "m \<le> total_sampled s \<Longrightarrow> review_coverage_loop m (pr # prs) s = s\<lparr>pulls := pulls s + 1\<rparr>"
  by (simp add: Let_def)

lemma review_coverage_loop_step:
  "total_sampled s < m \<Longrightarrow>
   review_coverage_loop m (pr # prs) s =
   review_coverage_loop m prs (review_coverage_body pr (s\<lparr>pulls := pulls s + 1\<rparr>))"
  by (simp add: Let_def)

declare review_coverage_loop.simps(2) [simp del]

lemma review_coverage_loop_count:
  "total_sampled s \<le> m \<Longrightarrow> total_sampled (review_coverage_loop m prs s) = min m (total_sampled s + length prs)"
proof (induction prs arbitrary: s)
  case Nil
  then show ?case by simp
next
  case (Cons pr prs)
  let ?b = "review_coverage_body pr (s\<lparr>pulls := pulls s + 1\<rparr>)"
  show ?case
  proof (cases "m \<le> total_sampled s")
    case True
    with Cons.prems show ?thesis by (simp add: review_coverage_loop_break)
  next
    case False
    then have lt: "total_sampled s < m" by simp
    then have "total_sampled ?b \<le> m" by (simp add: review_coverage_body_simps)
    then have "total_sampled (review_coverage_loop m prs ?b) = min m (total_sampled ?b + length prs)"
      by (rule Cons.IH)
    then show ?thesis by (simp add: review_coverage_loop_step [OF lt] review_coverage_body_simps)
  qed
qed

lemma review_coverage_loop_fetches:
  "total_sampled s \<le> m \<Longrightarrow>
   fetches (review_coverage_loop m prs s) + total_sampled s = fetches s + min m (total_sampled s + length prs)"
proof (induction prs arbitrary: s)
  case Nil
  then show ?case by simp
next
  case (Cons pr prs)
  let ?b = "review_coverage_body pr (s\<lparr>pulls := pulls s + 1\<rparr>)"
  show ?case
  proof (cases "m \<le> total_sampled s")
    case True
    with Cons.prems show ?thesis by (simp add: review_coverage_loop_break)
  next
    case False
    then have lt: "total_sampled s < m" by simp
    then have "total_sampled ?b \<le> m" by (simp add: review_coverage_body_simps)
    then have "fetches (review_coverage_loop m prs ?b) + total_sampled ?b =
        fetches ?b + min m (total_sampled ?b + length prs)"
      by (rule Cons.IH)
    then show ?thesis
      by (simp add: review_coverage_loop_step [OF lt] review_coverage_body_simps)
  qed
qed

lemma review_coverage_loop_pulls:
  "total_sampled s \<le> m \<Longrightarrow>
   pulls (review_coverage_loop m prs s) + total_sampled s =
   pulls s + (if m < total_sampled s + length prs then m + 1 else total_sampled s + length prs)"
proof (induction prs arbitrary: s)
  case Nil
  then show ?case by simp
next
  case (Cons pr prs)
  let ?b = "review_coverage_body pr (s\<lparr>pulls := pulls s + 1\<rparr>)"
  show ?case
  proof (cases "m \<le> total_sampled s")
    case True
    with Cons.prems show ?thesis by (simp add: review_coverage_loop_break)
  next
    case False
    then have lt: "total_sampled s < m" by simp
    then have "total_sampled ?b \<le> m" by (simp add: review_coverage_body_simps)
    then have "pulls (review_coverage_loop m prs ?b) + total_sampled ?b =
        pulls ?b + (if m < total_sampled ?b + length prs then m + 1 else total_sampled ?b + length prs)"
      by (rule Cons.IH)
    then show ?thesis
      by (simp add: review_coverage_loop_step [OF lt] review_coverage_body_simps split: if_splits)
  qed
qed

lemma review_coverage_loop_stdout:
  "total_sampled s \<le> m \<Longrightarrow>
   stdout (review_coverage_loop m prs s) =
   stdout s @ map Processed (filter (\<lambda>c. c mod 50 = 0)
                 [total_sampled s + 1..<min m (total_sampled s + length prs) + 1])"
proof (induction prs arbitrary: s)
  case Nil
  then show ?case by simp
next
  case (Cons pr prs)
  let ?b = "review_coverage_body pr (s\<lparr>pulls := pulls s + 1\<rparr>)"
  show ?case
  proof (cases "m \<le> total_sampled s")
    case True
    with Cons.prems show ?thesis by (simp add: review_coverage_loop_break)
  next
    case False
    then have lt: "total_sampled s < m" by simp
    then have "total_sampled ?b \<le> m" by (simp add: review_coverage_body_simps)
    then have ih: "stdout (review_coverage_loop m prs ?b) =
        stdout ?b @ map Processed (filter (\<lambda>c. c mod 50 = 0)
                 [total_sampled ?b + 1..<min m (total_sampled ?b + length prs) + 1])"
      by (rule Cons.IH)
    have "Suc (total_sampled s) < Suc (min m (Suc (total_sampled s) + length prs))" using lt by simp
    then have u: "[Suc (total_sampled s)..<Suc (min m (Suc (total_sampled s) + length prs))] =
       Suc (total_sampled s) # [Suc (Suc (total_sampled s))..<Suc (min m (Suc (total_sampled s) + length prs))]"
      by (rule upt_conv_Cons)
    have "stdout (review_coverage_loop m (pr # prs) s) =
       stdout ?b @ map Processed (filter (\<lambda>c. c mod 50 = 0)
                 [Suc (Suc (total_sampled s))..<Suc (min m (Suc (total_sampled s) + length prs))])"
      using ih by (simp add: review_coverage_loop_step [OF lt] review_coverage_body_count)
    also have "\<dots> = stdout s @ map Processed (filter (\<lambda>c. c mod 50 = 0)
                 [Suc (total_sampled s)..<Suc (min m (Suc (total_sampled s) + length prs))])"
      unfolding u by (simp add: review_coverage_body_stdout)
    finally show ?thesis by simp
  qed
qed

subsection \<open>The loop of comment depth\<close>

lemma comment_depth_body_fetches: "fetches (comment_depth_body pr s) = fetches s + 1"
  by (simp add: comment_depth_body_def get_pull_def print_def Let_def split: option.splits)

lemma comment_depth_body_pulls: "pulls (comment_depth_body pr s) = pulls s"
  by (simp add: comment_depth_body_def get_pull_def print_def Let_def split: option.splits)

lemma comment_depth_body_count: "total_prs (comment_depth_body pr s) = total_prs s + 1"
  by (simp add: comment_depth_body_def get_pull_def print_def Let_def split: option.splits)

lemma comment_depth_body_stdout:
  "stdout (comment_depth_body pr s) =
   stdout s @ (if (total_prs s + 1) mod 50 = 0 then [Processed (total_prs s + 1)] else [])"
  by (simp add: comment_depth_body_def get_pull_def print_def Let_def split: option.splits)

lemmas comment_depth_body_simps =
  comment_depth_body_fetches comment_depth_body_pulls comment_depth_body_count
  comment_depth_body_stdout

lemma comment_depth_loop_break:
  "m \<le> total_prs s \<Longrightarrow> comment_depth_loop m (pr # prs) s = s\<lparr>pulls := pulls s + 1\<rparr>"
  by (simp add: Let_def)

lemma comment_depth_loop_step:
  "total_prs s < m \<Longrightarrow>
   comment_depth_loop m (pr # prs) s =
   comment_depth_loop m prs (comment_depth_body pr (s\<lparr>pulls := pulls s + 1\<rparr>))"
  by (simp add: Let_def)

declare comment_depth_loop.simps(2) [simp del]

lemma comment_depth_loop_count:
  "total_prs s \<le> m \<Longrightarrow> total_prs (comment_depth_loop m prs s) = min m (total_prs s + length prs)"
proof (induction prs arbitrary: s)
  case Nil
  then show ?case by simp
next
  case (Cons pr prs)
  let ?b = "comment_depth_body pr (s\<lparr>pulls := pulls s + 1\<rparr>)"
  show ?case
  proof (cases "m \<le> total_prs s")
    case True
    with Cons.prems show ?thesis by (simp add: comment_depth_loop_break)
  next
    case False
    then have lt: "total_prs s < m" by simp
    then have "total_prs ?b \<le> m" by (simp add: comment_depth_body_simps)
    then have "total_prs (comment_depth_loop m prs ?b) = min m (total_prs ?b + length prs)"
      by (rule Cons.IH)
    then show ?thesis by (simp add: comment_depth_loop_step [OF lt] comment_depth_body_simps)
  qed
qed

lemma comment_depth_loop_fetches:
  "total_prs s \<le> m \<Longrightarrow>
   fetches (comment_depth_loop m prs s) + total_prs s = fetches s + min m (total_prs s + length prs)"
proof (induction prs arbitrary: s)
  case Nil
  then show ?case by simp
next
  case (Cons pr prs)
  let ?b = "comment_depth_body pr (s\<lparr>pulls := pulls s + 1\<rparr>)"
  show ?case
  proof (cases "m \<le> total_prs s")
    case True
    with Cons.prems show ?thesis by (simp add: comment_depth_loop_break)
  next
    case False
    then have lt: "total_prs s < m" by simp
    then have "total_prs ?b \<le> m" by (simp add: comment_depth_body_simps)
    then have "fetches (comment_depth_loop m prs ?b) + total_prs ?b =
        fetches ?b + min m (total_prs ?b + length prs)"
      by (rule Cons.IH)
    then show ?thesis
      by (simp add: comment_depth_loop_step [OF lt] comment_depth_body_simps)
  qed
qed

lemma comment_depth_loop_pulls:
  "total_prs s \<le> m \<Longrightarrow>
   pulls (comment_depth_loop m prs s) + total_prs s =
   pulls s + (if m < total_prs s + length prs then m + 1 else total_prs s + length prs)"
proof (induction prs arbitrary: s)
  case Nil
  then show ?case by simp
next
  case (Cons pr prs)
  let ?b = "comment_depth_body pr (s\<lparr>pulls := pulls s + 1\<rparr>)"
  show ?case
  proof (cases "m \<le> total_prs s")
    case True
    with Cons.prems show ?thesis by (simp add: comment_depth_loop_break)
  next
    case False
    then have lt: "total_prs s < m" by simp
    then have "total_prs ?b \<le> m" by (simp add: comment_depth_body_simps)
    then have "pulls (comment_depth_loop m prs ?b) + total_prs ?b =
        pulls ?b + (if m < total_prs ?b + length prs then m + 1 else total_prs ?b + length prs)"
      by (rule Cons.IH)
    then show ?thesis
      by (simp add: comment_depth_loop_step [OF lt] comment_depth_body_simps split: if_splits)
  qed
qed

lemma comment_depth_loop_stdout:
  "total_prs s \<le> m \<Longrightarrow>
   stdout (comment_depth_loop m prs s) =
   stdout s @ map Processed (filter (\<lambda>c. c mod 50 = 0)
                 [total_prs s + 1..<min m (total_prs s + length prs) + 1])"
proof (induction prs arbitrary: s)
  case Nil
  then show ?case by simp
next
  case (Cons pr prs)
  let ?b = "comment_depth_body pr (s\<lparr>pulls := pulls s + 1\<rparr>)"
  show ?case
  proof (cases "m \<le> total_prs s")
    case True
    with Cons.prems show ?thesis by (simp add: comment_depth_loop_break)
  next
    case False
    then have lt: "total_prs s < m" by simp
    then have "total_prs ?b \<le> m" by (simp add: comment_depth_body_simps)
    then have ih: "stdout (comment_depth_loop m prs ?b) =
        stdout ?b @ map Processed (filter (\<lambda>c. c mod 50 = 0)
                 [total_prs ?b + 1..<min m (total_prs ?b + length prs) + 1])"
      by (rule Cons.IH)
    have "Suc (total_prs s) < Suc (min m (Suc (total_prs s) + length prs))" using lt by simp
    then have u: "[Suc (total_prs s)..<Suc (min m (Suc (total_prs s) + length prs))] =
       Suc (total_prs s) # [Suc (Suc (total_prs s))..<Suc (min m (Suc (total_prs s) + length prs))]"
      by (rule upt_conv_Cons)
    have "stdout (comment_depth_loop m (pr # prs) s) =
       stdout ?b @ map Processed (filter (\<lambda>c. c mod 50 = 0)
                 [Suc (Suc (total_prs s))..<Suc (min m (Suc (total_prs s) + length prs))])"
      using ih by (simp add: comment_depth_loop_step [OF lt] comment_depth_body_count)
    also have "\<dots> = stdout s @ map Processed (filter (\<lambda>c. c mod 50 = 0)
                 [Suc (total_prs s)..<Suc (min m (Suc (total_prs s) + length prs))])"
      unfolding u by (simp add: comment_depth_body_stdout)
    finally show ?thesis by simp
  qed
qed

section \<open>The observations the loops collect\<close>

lemma response_time_body_response_times:
  "response_times (response_time_body pr s) = response_times s @ response_time_of pr"
  by (simp add: response_time_body_def response_time_of_def get_pull_def print_def Let_def
      split: option.splits)

lemma response_time_loop_response_times:
  "count s \<le> m \<Longrightarrow>
   response_times (response_time_loop m prs s) =
   response_times s @ concat (map response_time_of (take (m - count s) prs))"
proof (induction prs arbitrary: s)
  case Nil
  then show ?case by simp
next
  case (Cons pr prs)
  let ?b = "response_time_body pr (s\<lparr>pulls := pulls s + 1\<rparr>)"
  show ?case
  proof (cases "m \<le> count s")
    case True
    with Cons.prems show ?thesis by (simp add: response_time_loop_break)
  next
    case False
    then have lt: "count s < m" by simp
    then have "count ?b \<le> m" by (simp add: response_time_body_simps)
    then have ih: "response_times (response_time_loop m prs ?b) =
        response_times ?b @ concat (map response_time_of (take (m - count ?b) prs))"
      by (rule Cons.IH)
    from lt obtain d where d: "m - count s = Suc d" by (cases "m - count s") simp_all
    then have d': "m - Suc (count s) = d" by simp
    show ?thesis
      using ih
      by (simp add: response_time_loop_step [OF lt] response_time_body_count
          response_time_body_response_times d d')
  qed
qed

lemma iteration_count_body_iteration_counts:
  "iteration_counts (iteration_count_body pr s) = iteration_counts s @ [commits pr]"
  by (simp add: iteration_count_body_def get_pull_def print_def Let_def)

lemma iteration_count_loop_iteration_counts:
  "count s \<le> m \<Longrightarrow>
   iteration_counts (iteration_count_loop m prs s) =
   iteration_counts s @ map commits (take (m - count s) prs)"
proof (induction prs arbitrary: s)
  case Nil
  then show ?case by simp
next
  case (Cons pr prs)
  let ?b = "iteration_count_body pr (s\<lparr>pulls := pulls s + 1\<rparr>)"
  show ?case
  proof (cases "m \<le> count s")
    case True
    with Cons.prems show ?thesis by (simp add: iteration_count_loop_break)
  next
    case False
    then have lt: "count s < m" by simp
    then have "count ?b \<le> m" by (simp add: iteration_count_body_simps)
    then have ih: "iteration_counts (iteration_count_loop m prs ?b) =
        iteration_counts ?b @ map commits (take (m - count ?b) prs)"
      by (rule Cons.IH)
    from lt obtain d where d: "m - count s = Suc d" by (cases "m - count s") simp_all
    then have d': "m - Suc (count s) = d" by simp
    show ?thesis
      using ih
      by (simp add: iteration_count_loop_step [OF lt] iteration_count_body_count
          iteration_count_body_iteration_counts d d')
  qed
qed

lemma length_response_time_of: "length (response_time_of pr) \<le> 1"
  by (simp add: response_time_of_def split: option.splits)

lemma length_concat_response_time_of:
  "length (concat (map response_time_of xs)) \<le> length xs"
proof (induction xs)
  case Nil
  show ?case by simp
next
  case (Cons x xs)
  with length_response_time_of [of x] show ?case by simp
qed

lemma length_concat_cycle_time_of:
  "length (concat (map cycle_time_of xs)) = length (filter extractable xs)"
  by (induction xs) (simp_all add: length_cycle_time_of)

section \<open>Cycle-time observations are whole days\<close>

text \<open>
  Claim C10. In the cycle-time metric the observation appended for a merged item is the
  number of whole days between creation and merge: the quotient of the difference in
  seconds by 86400, so the part of the duration below one day is dropped before median
  and mean see the value, and a pull request merged less than 24 hours after its creation
  contributes 0.
\<close>

theorem cycle_time_whole_days:
  assumes "merged_at pr_obj = Some merged" and "created_at pr_obj \<le> merged"
  shows "\<exists>d. cycle_times (cycle_time_body pr_obj s) = cycle_times s @ [d]
     \<and> 0 \<le> d
     \<and> d * 86400 \<le> merged - created_at pr_obj
     \<and> merged - created_at pr_obj < (d + 1) * 86400
     \<and> (merged - created_at pr_obj < 86400 \<longrightarrow> d = 0)"
proof -
  let ?t = "merged - created_at pr_obj"
  let ?d = "?t div 86400"
  have t: "0 \<le> ?t" using assms(2) by simp
  have 1: "cycle_times (cycle_time_body pr_obj s) = cycle_times s @ [?d]"
    using assms(1) by (simp add: cycle_time_body_cycle_times cycle_time_of_def)
  have 2: "0 \<le> ?d" using t by simp
  have 3: "?d * 86400 \<le> ?t" by simp
  have m: "?t mod 86400 < 86400" by simp
  have e: "?t = 86400 * ?d + ?t mod 86400" by simp
  have "(?d + 1) * 86400 = 86400 * ?d + 86400" by (simp add: algebra_simps)
  with m e have 4: "?t < (?d + 1) * 86400" by linarith
  have 5: "?t < 86400 \<longrightarrow> ?d = 0" using t by simp
  from 1 2 3 4 5 show ?thesis by blast
qed

theorem cycle_time_whole_days_witness:
  "\<exists>d. cycle_times (cycle_time_body (pr0\<lparr>created_at := 100, merged_at := Some 86499\<rparr>) start)
        = cycle_times start @ [d]
     \<and> 0 \<le> d \<and> d * 86400 \<le> 86499 - 100 \<and> 86499 - 100 < (d + 1) * 86400
     \<and> ((86499::int) - 100 < 86400 \<longrightarrow> d = 0)"
  using cycle_time_whole_days [of "pr0\<lparr>created_at := 100, merged_at := Some 86499\<rparr>" 86499 start]
  by (simp add: pr0_def)

section \<open>The cap under the count-only-successful policy\<close>

text \<open>
  Claim C2. The cycle-time loop starts with an empty result and a counter of 0. When the
  search yields at least \<open>max_sample\<close> extractable items, exactly \<open>max_sample\<close>
  observations are collected; when it yields fewer, all of them are. The items processed
  are a prefix of the search result, each of them is processed while the counter is below
  the cap, and the loop takes at most one more item from the iterator than it processes.
\<close>

theorem cycle_time_cap:
  fixes max_sample :: nat and prs :: "pull_request list" and s :: script
  defines "s0 \<equiv> s\<lparr>cycle_times := [], count := 0\<rparr>"
  defines "r \<equiv> cycle_time_loop max_sample prs s0"
  defines "n \<equiv> fetches r - fetches s0"
  shows "(max_sample \<le> length (filter extractable prs) \<longrightarrow>
            count r = max_sample \<and> length (cycle_times r) = max_sample)
     \<and> (length (filter extractable prs) < max_sample \<longrightarrow>
            count r = length (filter extractable prs)
          \<and> length (cycle_times r) = length (filter extractable prs))
     \<and> fetches r = fetches s0 + n \<and> n \<le> length prs
     \<and> cycle_times r = concat (map cycle_time_of (take n prs))
     \<and> (\<forall>j<n. length (filter extractable (take j prs)) < max_sample)
     \<and> pulls r = pulls s0 + (if n < length prs then n + 1 else n)"
proof -
  have c0: "count s0 = 0" and t0: "cycle_times s0 = []" by (simp_all add: s0_def)
  have cnt: "count r = min max_sample (length (filter extractable prs))"
    unfolding r_def using cycle_time_loop_count_min [of s0 max_sample prs] c0 by simp
  have ct: "cycle_times r = concat (map cycle_time_of (take n prs))"
    unfolding r_def n_def using cycle_time_loop_cycle_times [of max_sample prs s0] t0 by simp
  have cn: "count r = length (filter extractable (take n prs))"
    unfolding r_def n_def using cycle_time_loop_count [of max_sample prs s0] c0 by simp
  have len: "length (concat (map cycle_time_of xs)) = length (filter extractable xs)" for xs
    by (induction xs) (simp_all add: length_cycle_time_of)
  have lc: "length (cycle_times r) = count r" by (simp add: ct cn len)
  have f: "fetches r = fetches s0 + n"
    unfolding r_def n_def using cycle_time_loop_fetches_mono [of s0 max_sample prs] by simp
  have nl: "n \<le> length prs" unfolding r_def n_def by (rule cycle_time_loop_processed)
  have bc: "\<forall>j<n. length (filter extractable (take j prs)) < max_sample"
  proof (intro allI impI)
    fix j assume "j < n"
    then have "count s0 + length (filter extractable (take j prs)) < max_sample"
      unfolding n_def r_def by (rule cycle_time_loop_below_cap)
    then show "length (filter extractable (take j prs)) < max_sample" by (simp add: c0)
  qed
  have p: "pulls r = pulls s0 + (if n < length prs then n + 1 else n)"
    unfolding r_def n_def by (rule cycle_time_loop_pulls)
  from cnt lc f nl ct bc p show ?thesis by (simp add: min_def)
qed

theorem cycle_time_cap_witness:
  "let prs = [pr0\<lparr>merged_at := Some 86400\<rparr>, pr0, pr0\<lparr>merged_at := Some 5\<rparr>, pr0\<lparr>merged_at := Some 7\<rparr>];
       r = cycle_time_loop 2 prs (start\<lparr>cycle_times := [], count := 0\<rparr>)
   in 2 \<le> length (filter extractable prs) \<and> count r = 2 \<and> cycle_times r = [1, 0]
      \<and> fetches r = 3 \<and> pulls r = 4 \<and> length (filter extractable (take 2 prs)) < 2"
  using cycle_time_cap [of 2 "[pr0\<lparr>merged_at := Some 86400\<rparr>, pr0, pr0\<lparr>merged_at := Some 5\<rparr>, pr0\<lparr>merged_at := Some 7\<rparr>]" start]
  by (simp add: Let_def pr0_def start_def extractable_def cycle_time_of_def cycle_time_loop.simps
      cycle_time_body_def get_pull_def print_def)

section \<open>The two counting policies\<close>

text \<open>
  Claim C4. The counter checked against the cap is incremented by the cycle-time metric only
  for an item that yields an observation, that is an item with a merge timestamp, and by the
  iteration-count and comment-depth metrics for every item processed. So the cycle-time
  counter ends at the number of merged items, capped, and the other two at the number of
  items, capped.
\<close>

theorem counting_policies:
  "count (cycle_time_body pr s) = count s + (if extractable pr then 1 else 0)
   \<and> cycle_times (cycle_time_body pr s) = cycle_times s @ cycle_time_of pr
   \<and> length (cycle_time_of pr) = (if extractable pr then 1 else 0)
   \<and> count (cycle_time_loop max_sample prs (s\<lparr>cycle_times := [], count := 0\<rparr>))
       = min max_sample (length (filter extractable prs))
   \<and> count (iteration_count_body pr s) = count s + 1
   \<and> count (iteration_count_loop max_sample prs (s\<lparr>iteration_counts := [], count := 0\<rparr>))
       = min max_sample (length prs)
   \<and> total_prs (comment_depth_body pr s) = total_prs s + 1
   \<and> total_prs (comment_depth_loop max_sample prs (s\<lparr>total_comments := 0, total_prs := 0\<rparr>))
       = min max_sample (length prs)"
proof -
  have 1: "count (cycle_time_loop max_sample prs (s\<lparr>cycle_times := [], count := 0\<rparr>))
       = min max_sample (length (filter extractable prs))"
    using cycle_time_loop_count_min [of "s\<lparr>cycle_times := [], count := 0\<rparr>" max_sample prs]
    by simp
  have 2: "count (iteration_count_loop max_sample prs (s\<lparr>iteration_counts := [], count := 0\<rparr>))
       = min max_sample (length prs)"
    using iteration_count_loop_count [of "s\<lparr>iteration_counts := [], count := 0\<rparr>" max_sample prs]
    by simp
  have 3: "total_prs (comment_depth_loop max_sample prs (s\<lparr>total_comments := 0, total_prs := 0\<rparr>))
       = min max_sample (length prs)"
    using comment_depth_loop_count [of "s\<lparr>total_comments := 0, total_prs := 0\<rparr>" max_sample prs]
    by simp
  show ?thesis
    using 1 2 3
    by (simp add: cycle_time_body_count cycle_time_body_cycle_times length_cycle_time_of
        iteration_count_body_count comment_depth_body_count)
qed

section \<open>Items without a usable response\<close>

text \<open>
  Claim C9. In the response-time metric a processed item without comments and reviews, or
  whose first response is not strictly later than its creation, appends no observation and
  still increments the counter by one: it uses one slot of the cap, so that only
  \<open>max_sample - count - 1\<close> further items can be sampled after it.
\<close>

theorem unanswered_item_consumes_slot:
  assumes "count s < max_sample"
    and "first_response_of pr = None
         \<or> (\<exists>fr. first_response_of pr = Some fr \<and> fr \<le> created_at pr)"
  shows "response_times (response_time_body pr s) = response_times s
     \<and> count (response_time_body pr s) = count s + 1
     \<and> response_times (response_time_loop max_sample (pr # prs) s)
         = response_times s @ concat (map response_time_of (take (max_sample - count s - 1) prs))
     \<and> count (response_time_loop max_sample (pr # prs) s)
         = min max_sample (count s + 1 + length prs)"
proof -
  from assms(2) have e: "response_time_of pr = []"
    by (auto simp add: response_time_of_def)
  have le: "count s \<le> max_sample" using assms(1) by simp
  from assms(1) obtain d where d: "max_sample - count s = Suc d"
    by (cases "max_sample - count s") simp_all
  have 1: "response_times (response_time_body pr s) = response_times s"
    by (simp add: response_time_body_response_times e)
  have 2: "count (response_time_body pr s) = count s + 1"
    by (rule response_time_body_count)
  have 3: "response_times (response_time_loop max_sample (pr # prs) s)
         = response_times s @ concat (map response_time_of (take (max_sample - count s - 1) prs))"
    using response_time_loop_response_times [OF le, of "pr # prs"] by (simp add: d e)
  have 4: "count (response_time_loop max_sample (pr # prs) s)
         = min max_sample (count s + 1 + length prs)"
    using response_time_loop_count [OF le, of "pr # prs"] by simp
  from 1 2 3 4 show ?thesis by blast
qed

theorem unanswered_item_consumes_slot_witness:
  "count start < 1
   \<and> first_response_of pr0 = None
   \<and> first_response_of (pr0\<lparr>get_issue_comments := [IssueComment 3600]\<rparr>) = Some 3600
   \<and> response_times (response_time_loop 1
         [pr0, pr0\<lparr>get_issue_comments := [IssueComment 3600]\<rparr>] start) = []
   \<and> count (response_time_loop 1
         [pr0, pr0\<lparr>get_issue_comments := [IssueComment 3600]\<rparr>] start) = 1"
  using unanswered_item_consumes_slot
    [of start 1 pr0 "[pr0\<lparr>get_issue_comments := [IssueComment 3600]\<rparr>]"]
  by (simp add: start_def pr0_def first_response_of_def)

section \<open>Progress lines\<close>

lemma cycle_time_body_stdout:
  "extractable pr \<Longrightarrow>
   stdout (cycle_time_body pr s) =
   stdout s @ (if (count s + 1) mod 50 = 0 then [Processed (count s + 1)] else [])"
  by (auto simp add: cycle_time_body_def get_pull_def print_def Let_def extractable_def
      split: option.splits)

lemma cycle_time_loop_stdout:
  "\<forall>pr\<in>set prs. extractable pr \<Longrightarrow> count s \<le> m \<Longrightarrow>
   stdout (cycle_time_loop m prs s) =
   stdout s @ map Processed (filter (\<lambda>c. c mod 50 = 0)
                 [count s + 1..<min m (count s + length prs) + 1])"
proof (induction prs arbitrary: s)
  case Nil
  then show ?case by simp
next
  case (Cons pr prs)
  let ?b = "cycle_time_body pr (s\<lparr>pulls := pulls s + 1\<rparr>)"
  from Cons.prems(1) have ex: "extractable pr" and rest: "\<forall>pr\<in>set prs. extractable pr"
    by simp_all
  have cb: "count ?b = Suc (count s)" using ex by (simp add: cycle_time_body_count)
  show ?case
  proof (cases "m \<le> count s")
    case True
    with Cons.prems(2) show ?thesis by (simp add: cycle_time_loop_break)
  next
    case False
    then have lt: "count s < m" by simp
    then have "count ?b \<le> m" unfolding cb by simp
    with rest have ih: "stdout (cycle_time_loop m prs ?b) =
        stdout ?b @ map Processed (filter (\<lambda>c. c mod 50 = 0)
                 [count ?b + 1..<min m (count ?b + length prs) + 1])"
      by (rule Cons.IH)
    have "Suc (count s) < Suc (min m (Suc (count s) + length prs))" using lt by simp
    then have u: "[Suc (count s)..<Suc (min m (Suc (count s) + length prs))] =
       Suc (count s) # [Suc (Suc (count s))..<Suc (min m (Suc (count s) + length prs))]"
      by (rule upt_conv_Cons)
    have "stdout (cycle_time_loop m (pr # prs) s) =
       stdout ?b @ map Processed (filter (\<lambda>c. c mod 50 = 0)
                 [Suc (Suc (count s))..<Suc (min m (Suc (count s) + length prs))])"
      using ih ex by (simp add: cycle_time_loop_step [OF lt] cycle_time_body_count)
    also have "\<dots> = stdout s @ map Processed (filter (\<lambda>c. c mod 50 = 0)
                 [Suc (count s)..<Suc (min m (Suc (count s) + length prs))])"
      unfolding u using ex by (simp add: cycle_time_body_stdout)
    finally show ?thesis by simp
  qed
qed

lemma progress_from_zero:
  assumes "c = 0"
  shows "map Processed (filter (\<lambda>k. k mod 50 = 0) [c + 1..<min m (c + length prs) + 1])
     = map (\<lambda>k. Processed (50 * k)) [1..<Suc (min m (length prs) div 50)]"
proof -
  let ?n = "min m (length prs)"
  have "[c + 1..<min m (c + length prs) + 1] = [1..<Suc ?n]"
    unfolding assms by simp
  then have "map Processed (filter (\<lambda>k. k mod 50 = 0) [c + 1..<min m (c + length prs) + 1])
      = map Processed (map (\<lambda>k. 50 * k) [1..<Suc (?n div 50)])"
    by (simp only: multiples_upto)
  then show ?thesis by (simp only: map_map comp_def)
qed

lemma cycle_time_loop_unmerged:
  assumes "\<not> extractable pr" and "count s mod 50 \<noteq> 0" and "count s < m"
  shows "cycle_time_loop m (replicate n pr) s
     = s\<lparr>pulls := pulls s + n, fetches := fetches s + n\<rparr>"
  using assms(2,3)
proof (induction n arbitrary: s)
  case 0
  show ?case by simp
next
  case (Suc n)
  define b where "b = cycle_time_body pr (s\<lparr>pulls := pulls s + 1\<rparr>)"
  have b: "b = s\<lparr>pulls := pulls s + 1, fetches := fetches s + 1\<rparr>"
    unfolding b_def using assms(1) Suc.prems(1)
    by (simp add: cycle_time_body_def get_pull_def print_def extractable_def)
  have c: "count b mod 50 \<noteq> 0" "count b < m" using Suc.prems by (simp_all add: b)
  have "cycle_time_loop m (replicate n pr) b = b\<lparr>pulls := pulls b + n, fetches := fetches b + n\<rparr>"
    using c by (rule Suc.IH)
  moreover have "cycle_time_loop m (replicate (Suc n) pr) s = cycle_time_loop m (replicate n pr) b"
    unfolding b_def using Suc.prems(2) by (simp add: cycle_time_loop_step)
  ultimately show ?case by (simp add: b)
qed

text \<open>
  The cycle-time loop counts merged items only and prints on that counter. After one merged
  item and 49 items without merge timestamp, 50 items are processed and no progress line is
  printed.
\<close>

theorem cycle_time_progress_counterexample:
  "fetches (cycle_time_loop 500 (pr0\<lparr>merged_at := Some 86400\<rparr> # replicate 49 pr0)
      (start\<lparr>cycle_times := [], count := 0\<rparr>)) = 50
   \<and> stdout (cycle_time_loop 500 (pr0\<lparr>merged_at := Some 86400\<rparr> # replicate 49 pr0)
      (start\<lparr>cycle_times := [], count := 0\<rparr>)) = []
   \<and> stdout (cycle_time_loop 500 (pr0\<lparr>merged_at := Some 86400\<rparr> # replicate 49 pr0)
      (start\<lparr>cycle_times := [], count := 0\<rparr>))
       \<noteq> map (\<lambda>k. Processed (50 * k)) [1..<Suc (50 div 50)]"
proof -
  define s0 where "s0 = start\<lparr>cycle_times := [], count := 0\<rparr>"
  define b where "b = cycle_time_body (pr0\<lparr>merged_at := Some 86400\<rparr>) (s0\<lparr>pulls := pulls s0 + 1\<rparr>)"
  have c: "count b = 1" and f: "fetches b = 1" and o: "stdout b = []"
    unfolding b_def s0_def
    by (simp_all add: cycle_time_body_def get_pull_def print_def start_def pr0_def)
  have u: "\<not> extractable pr0" by (simp add: extractable_def pr0_def)
  have "count s0 < 500" by (simp add: s0_def)
  then have "cycle_time_loop 500 (pr0\<lparr>merged_at := Some 86400\<rparr> # replicate 49 pr0) s0
      = cycle_time_loop 500 (replicate 49 pr0) b"
    unfolding b_def by (rule cycle_time_loop_step)
  also have "\<dots> = b\<lparr>pulls := pulls b + 49, fetches := fetches b + 49\<rparr>"
    using u by (rule cycle_time_loop_unmerged) (simp_all add: c)
  finally show ?thesis unfolding s0_def [symmetric] by (simp add: f o)
qed

text \<open>
  Claim C5, as amended. In the response-time, iteration-count, review-coverage and
  comment-depth loops the counter counts every processed item and one progress line is
  printed each time it reaches a multiple of 50: the lines are those of 50, 100, ... up to
  the number of items processed, and the loop prints nothing else. The cycle-time loop
  prints on its counter of merged items; when every item of the search result is merged its
  lines are the same.
\<close>

theorem progress_lines:
  "(let r = response_time_loop max_sample prs (s\<lparr>response_times := [], count := 0\<rparr>);
        n = min max_sample (length prs)
    in count r = n \<and> fetches r = fetches s + n
       \<and> stdout r = stdout s @ map (\<lambda>k. Processed (50 * k)) [1..<Suc (n div 50)])
   \<and> (let r = iteration_count_loop max_sample prs (s\<lparr>iteration_counts := [], count := 0\<rparr>);
        n = min max_sample (length prs)
    in count r = n \<and> fetches r = fetches s + n
       \<and> stdout r = stdout s @ map (\<lambda>k. Processed (50 * k)) [1..<Suc (n div 50)])
   \<and> (let r = review_coverage_loop max_sample prs
              (s\<lparr>multiple_reviewer_count := 0, total_sampled := 0\<rparr>);
        n = min max_sample (length prs)
    in total_sampled r = n \<and> fetches r = fetches s + n
       \<and> stdout r = stdout s @ map (\<lambda>k. Processed (50 * k)) [1..<Suc (n div 50)])
   \<and> (let r = comment_depth_loop max_sample prs (s\<lparr>total_comments := 0, total_prs := 0\<rparr>);
        n = min max_sample (length prs)
    in total_prs r = n \<and> fetches r = fetches s + n
       \<and> stdout r = stdout s @ map (\<lambda>k. Processed (50 * k)) [1..<Suc (n div 50)])
   \<and> ((\<forall>pr\<in>set prs. extractable pr) \<longrightarrow>
       (let r = cycle_time_loop max_sample prs (s\<lparr>cycle_times := [], count := 0\<rparr>);
            n = min max_sample (length prs)
        in count r = n \<and> fetches r = fetches s + n
           \<and> stdout r = stdout s @ map (\<lambda>k. Processed (50 * k)) [1..<Suc (n div 50)]))"
proof -
  let ?n = "min max_sample (length prs)"
  let ?L = "map (\<lambda>k. Processed (50 * k)) [1..<Suc (?n div 50)]"
  have resp: "count r = ?n \<and> fetches r = fetches s + ?n \<and> stdout r = stdout s @ ?L"
    if r: "r = response_time_loop max_sample prs (s\<lparr>response_times := [], count := 0\<rparr>)" for r
  proof -
    let ?s0 = "s\<lparr>response_times := [], count := 0\<rparr>"
    have z: "count ?s0 = 0" and le: "count ?s0 \<le> max_sample" by simp_all
    have c: "count r = ?n"
      unfolding r using response_time_loop_count [OF le, of prs] by simp
    have f: "fetches r = fetches s + ?n"
      unfolding r using response_time_loop_fetches [OF le, of prs] by simp
    have "stdout r = stdout ?s0 @ map Processed (filter (\<lambda>k. k mod 50 = 0)
        [count ?s0 + 1..<min max_sample (count ?s0 + length prs) + 1])"
      unfolding r using le by (rule response_time_loop_stdout)
    then have o: "stdout r = stdout s @ ?L"
      unfolding progress_from_zero [OF z] by simp
    from c f o show ?thesis by blast
  qed
  have iter: "count r = ?n \<and> fetches r = fetches s + ?n \<and> stdout r = stdout s @ ?L"
    if r: "r = iteration_count_loop max_sample prs (s\<lparr>iteration_counts := [], count := 0\<rparr>)" for r
  proof -
    let ?s0 = "s\<lparr>iteration_counts := [], count := 0\<rparr>"
    have z: "count ?s0 = 0" and le: "count ?s0 \<le> max_sample" by simp_all
    have c: "count r = ?n"
      unfolding r using iteration_count_loop_count [OF le, of prs] by simp
    have f: "fetches r = fetches s + ?n"
      unfolding r using iteration_count_loop_fetches [OF le, of prs] by simp
    have "stdout r = stdout ?s0 @ map Processed (filter (\<lambda>k. k mod 50 = 0)
        [count ?s0 + 1..<min max_sample (count ?s0 + length prs) + 1])"
      unfolding r using le by (rule iteration_count_loop_stdout)
    then have o: "stdout r = stdout s @ ?L"
      unfolding progress_from_zero [OF z] by simp
    from c f o show ?thesis by blast
  qed
  have cov: "total_sampled r = ?n \<and> fetches r = fetches s + ?n \<and> stdout r = stdout s @ ?L"
    if r: "r = review_coverage_loop max_sample prs
             (s\<lparr>multiple_reviewer_count := 0, total_sampled := 0\<rparr>)" for r
  proof -
    let ?s0 = "s\<lparr>multiple_reviewer_count := 0, total_sampled := 0\<rparr>"
    have z: "total_sampled ?s0 = 0" and le: "total_sampled ?s0 \<le> max_sample" by simp_all
    have c: "total_sampled r = ?n"
      unfolding r using review_coverage_loop_count [OF le, of prs] by simp
    have f: "fetches r = fetches s + ?n"
      unfolding r using review_coverage_loop_fetches [OF le, of prs] by simp
    have "stdout r = stdout ?s0 @ map Processed (filter (\<lambda>k. k mod 50 = 0)
        [total_sampled ?s0 + 1..<min max_sample (total_sampled ?s0 + length prs) + 1])"
      unfolding r using le by (rule review_coverage_loop_stdout)
    then have o: "stdout r = stdout s @ ?L"
      unfolding progress_from_zero [OF z] by simp
    from c f o show ?thesis by blast
  qed
  have dep: "total_prs r = ?n \<and> fetches r = fetches s + ?n \<and> stdout r = stdout s @ ?L"
    if r: "r = comment_depth_loop max_sample prs (s\<lparr>total_comments := 0, total_prs := 0\<rparr>)" for r
  proof -
    let ?s0 = "s\<lparr>total_comments := 0, total_prs := 0\<rparr>"
    have z: "total_prs ?s0 = 0" and le: "total_prs ?s0 \<le> max_sample" by simp_all
    have c: "total_prs r = ?n"
      unfolding r using comment_depth_loop_count [OF le, of prs] by simp
    have f: "fetches r = fetches s + ?n"
      unfolding r using comment_depth_loop_fetches [OF le, of prs] by simp
    have "stdout r = stdout ?s0 @ map Processed (filter (\<lambda>k. k mod 50 = 0)
        [total_prs ?s0 + 1..<min max_sample (total_prs ?s0 + length prs) + 1])"
      unfolding r using le by (rule comment_depth_loop_stdout)
    then have o: "stdout r = stdout s @ ?L"
      unfolding progress_from_zero [OF z] by simp
    from c f o show ?thesis by blast
  qed
  have cyc: "count r = ?n \<and> fetches r = fetches s + ?n \<and> stdout r = stdout s @ ?L"
    if all: "\<forall>pr\<in>set prs. extractable pr"
      and r: "r = cycle_time_loop max_sample prs (s\<lparr>cycle_times := [], count := 0\<rparr>)" for r
  proof -
    let ?s0 = "s\<lparr>cycle_times := [], count := 0\<rparr>"
    have z: "count ?s0 = 0" and le: "count ?s0 \<le> max_sample" by simp_all
    from all have fa: "filter extractable prs = prs" by (simp add: filter_id_conv)
    have c: "count r = ?n"
      unfolding r using cycle_time_loop_count_min [OF le, of prs] fa by simp
    have "stdout r = stdout ?s0 @ map Processed (filter (\<lambda>k. k mod 50 = 0)
        [count ?s0 + 1..<min max_sample (count ?s0 + length prs) + 1])"
      unfolding r using all le by (rule cycle_time_loop_stdout)
    then have o: "stdout r = stdout s @ ?L"
      unfolding progress_from_zero [OF z] by simp
    have nl: "fetches r - fetches ?s0 \<le> length prs"
      unfolding r by (rule cycle_time_loop_processed)
    have "count r = count ?s0 + length (filter extractable (take (fetches r - fetches ?s0) prs))"
      unfolding r by (rule cycle_time_loop_count)
    moreover have "filter extractable (take (fetches r - fetches ?s0) prs)
        = take (fetches r - fetches ?s0) prs"
      using all by (auto simp add: filter_id_conv dest: in_set_takeD)
    ultimately have "count r = fetches r - fetches ?s0" using nl by simp
    moreover have "fetches ?s0 \<le> fetches r" unfolding r by (rule cycle_time_loop_fetches_mono)
    ultimately have f: "fetches r = fetches s + ?n" using c by simp
    from c f o show ?thesis by blast
  qed
  show ?thesis
    unfolding Let_def
    using resp [OF refl] iter [OF refl] cov [OF refl] dep [OF refl] cyc [OF _ refl] by blast
qed

theorem progress_lines_witness:
  "extractable (pr0\<lparr>merged_at := Some 86400\<rparr>)
   \<and> stdout (cycle_time_loop 500 (replicate 50 (pr0\<lparr>merged_at := Some 86400\<rparr>))
         (start\<lparr>cycle_times := [], count := 0\<rparr>)) = [Processed 50]
   \<and> stdout (response_time_loop 300 (replicate 50 (pr0\<lparr>merged_at := Some 86400\<rparr>))
         (start\<lparr>response_times := [], count := 0\<rparr>)) = [Processed 50]
   \<and> stdout (comment_depth_loop 100 (replicate 250 (pr0\<lparr>merged_at := Some 86400\<rparr>))
         (start\<lparr>total_comments := 0, total_prs := 0\<rparr>)) = [Processed 50, Processed 100]"
proof -
  let ?pr = "pr0\<lparr>merged_at := Some 86400\<rparr>"
  have e: "\<forall>pr\<in>set (replicate 50 ?pr). extractable pr"
    by (simp add: extractable_def)
  have o: "stdout start = []" by (simp add: start_def)
  have u1: "[1..<Suc (min 500 (length (replicate 50 ?pr)) div 50)] = [1]" by simp
  have u2: "[1..<Suc (min 300 (length (replicate 50 ?pr)) div 50)] = [1]" by simp
  have u3: "[1..<Suc (min 100 (length (replicate 250 ?pr)) div 50)] = [1, 2]"
    by (simp add: upt_rec)
  have 1: "stdout (cycle_time_loop 500 (replicate 50 ?pr)
         (start\<lparr>cycle_times := [], count := 0\<rparr>)) = [Processed 50]"
    using progress_lines [where max_sample = 500 and s = start and prs = "replicate 50 ?pr"] e
    unfolding Let_def u1 o by simp
  have 2: "stdout (response_time_loop 300 (replicate 50 ?pr)
         (start\<lparr>response_times := [], count := 0\<rparr>)) = [Processed 50]"
    using progress_lines [where max_sample = 300 and s = start and prs = "replicate 50 ?pr"]
    unfolding Let_def u2 o by simp
  have 3: "stdout (comment_depth_loop 100 (replicate 250 ?pr)
         (start\<lparr>total_comments := 0, total_prs := 0\<rparr>)) = [Processed 50, Processed 100]"
    using progress_lines [where max_sample = 100 and s = start and prs = "replicate 250 ?pr"]
    unfolding Let_def u3 o by simp
  have x: "extractable ?pr" by (simp add: extractable_def)
  from x 1 2 3 show ?thesis by blast
qed

section \<open>The counter and the observations\<close>

lemma length_concat_response_time_of_split:
  "length (concat (map response_time_of xs)) + length (filter (\<lambda>pr. response_time_of pr = []) xs)
   = length xs"
proof (induction xs)
  case Nil
  show ?case by simp
next
  case (Cons x xs)
  have "length (response_time_of x) = (if response_time_of x = [] then 0 else 1)"
    by (simp add: response_time_of_def split: option.splits)
  with Cons show ?case by simp
qed

text \<open>
  The response-time loop increments its counter for an item without comments and reviews
  and appends nothing for it.
\<close>

theorem response_count_counterexample:
  "count (response_time_loop 300 [pr0] (start\<lparr>response_times := [], count := 0\<rparr>)) = 1
   \<and> response_times (response_time_loop 300 [pr0] (start\<lparr>response_times := [], count := 0\<rparr>)) = []
   \<and> count (response_time_loop 300 [pr0] (start\<lparr>response_times := [], count := 0\<rparr>))
       \<noteq> length (response_times
             (response_time_loop 300 [pr0] (start\<lparr>response_times := [], count := 0\<rparr>)))"
  by (simp add: response_time_loop_step response_time_body_def first_response_of_def
      get_pull_def print_def start_def pr0_def)

text \<open>
  Claim C1, as amended. The state after the first \<open>k\<close> items of the search result is
  the loop run on these items. In the cycle-time and iteration-count metrics the counter
  checked against the cap equals the number of observations in every such state and at
  completion. In the response-time metric the counter is the number of items processed; the
  observations are at most as many, and the counter exceeds them by the number of processed
  items that have no first response later than their creation.
\<close>

theorem observations_counted:
  "(let r = cycle_time_loop max_sample (take k prs) (s\<lparr>cycle_times := [], count := 0\<rparr>)
    in count r = length (cycle_times r))
   \<and> (let r = iteration_count_loop max_sample (take k prs) (s\<lparr>iteration_counts := [], count := 0\<rparr>)
    in count r = length (iteration_counts r))
   \<and> (let r = response_time_loop max_sample (take k prs) (s\<lparr>response_times := [], count := 0\<rparr>)
    in length (response_times r) \<le> count r
       \<and> count r = length (response_times r)
           + length (filter (\<lambda>pr. response_time_of pr = []) (take (count r) (take k prs))))"
proof -
  let ?xs = "take k prs"
  have cyc: "count r = length (cycle_times r)"
    if r: "r = cycle_time_loop max_sample ?xs (s\<lparr>cycle_times := [], count := 0\<rparr>)" for r
  proof -
    let ?s0 = "s\<lparr>cycle_times := [], count := 0\<rparr>"
    have "count r = count ?s0 + length (filter extractable (take (fetches r - fetches ?s0) ?xs))"
      unfolding r by (rule cycle_time_loop_count)
    moreover have "cycle_times r = cycle_times ?s0
        @ concat (map cycle_time_of (take (fetches r - fetches ?s0) ?xs))"
      unfolding r by (rule cycle_time_loop_cycle_times)
    ultimately show ?thesis by (simp add: length_concat_cycle_time_of)
  qed
  have iter: "count r = length (iteration_counts r)"
    if r: "r = iteration_count_loop max_sample ?xs (s\<lparr>iteration_counts := [], count := 0\<rparr>)" for r
  proof -
    let ?s0 = "s\<lparr>iteration_counts := [], count := 0\<rparr>"
    have le: "count ?s0 \<le> max_sample" by simp
    have "count r = min max_sample (count ?s0 + length ?xs)"
      unfolding r using le by (rule iteration_count_loop_count)
    moreover have "iteration_counts r = iteration_counts ?s0
        @ map commits (take (max_sample - count ?s0) ?xs)"
      unfolding r using le by (rule iteration_count_loop_iteration_counts)
    ultimately show ?thesis by (simp add: min_def)
  qed
  have resp: "length (response_times r) \<le> count r
       \<and> count r = length (response_times r)
           + length (filter (\<lambda>pr. response_time_of pr = []) (take (count r) ?xs))"
    if r: "r = response_time_loop max_sample ?xs (s\<lparr>response_times := [], count := 0\<rparr>)" for r
  proof -
    let ?s0 = "s\<lparr>response_times := [], count := 0\<rparr>"
    let ?ys = "take max_sample ?xs"
    have le: "count ?s0 \<le> max_sample" by simp
    have "count r = min max_sample (count ?s0 + length ?xs)"
      unfolding r using le by (rule response_time_loop_count)
    then have c: "count r = length ?ys" by (simp add: min_def)
    have t: "take (length ?ys) ?xs = ?ys" by (simp add: min_def)
    have "response_times r = response_times ?s0
        @ concat (map response_time_of (take (max_sample - count ?s0) ?xs))"
      unfolding r using le by (rule response_time_loop_response_times)
    then have o: "response_times r = concat (map response_time_of ?ys)" by simp
    have "length (concat (map response_time_of ?ys))
        + length (filter (\<lambda>pr. response_time_of pr = []) ?ys) = length ?ys"
      by (rule length_concat_response_time_of_split)
    then have "length (response_times r)
        + length (filter (\<lambda>pr. response_time_of pr = []) (take (count r) ?xs)) = count r"
      by (simp only: t o c)
    then show ?thesis by linarith
  qed
  show ?thesis
    unfolding Let_def using cyc [OF refl] iter [OF refl] resp [OF refl] by blast
qed

section \<open>Summaries of an empty sample\<close>

text \<open>
  The cycle-time summary is guarded by a test of the observations: on an empty search result
  the metric prints its heading and no summary, and raises nothing.
\<close>

theorem empty_cycle_sample_counterexample:
  "cycle_times (cycle_time_loop 500 [] (print (Heading ''1. PR Cycle Time (sampling 500 merged PRs)...'')
      (start\<lparr>cycle_times := [], count := 0\<rparr>))) = []
   \<and> cycle_time_metric 500 [] start = Inr (print (Heading ''1. PR Cycle Time (sampling 500 merged PRs)...'') start)"
  by (simp add: cycle_time_metric_def cycle_time_summary_def print_def start_def)

text \<open>
  Claim C3, as amended. The review-coverage and comment-depth summaries divide by the number
  of items sampled without a test, so with zero items sampled they raise
  \<^verbatim>\<open>ZeroDivisionError\<close>; in particular on an empty search result. The cycle-time,
  response-time and iteration-count summaries are skipped when there is no observation:
  nothing is printed and nothing is raised.
\<close>

theorem empty_sample_summaries:
  "(total_sampled s = 0 \<longrightarrow> review_coverage_summary s = Inl ZeroDivisionError)
   \<and> (total_prs s = 0 \<longrightarrow> comment_depth_summary s = Inl ZeroDivisionError)
   \<and> review_coverage_metric max_sample [] s = Inl ZeroDivisionError
   \<and> comment_depth_metric max_sample [] s = Inl ZeroDivisionError
   \<and> (cycle_times s = [] \<longrightarrow> cycle_time_summary s = Inr s)
   \<and> (response_times s = [] \<longrightarrow> response_time_summary s = Inr s)
   \<and> (iteration_counts s = [] \<longrightarrow> iteration_count_summary s = Inr s)"
  by (simp add: review_coverage_summary_def comment_depth_summary_def
      review_coverage_metric_def comment_depth_metric_def print_def
      cycle_time_summary_def response_time_summary_def iteration_count_summary_def)

theorem empty_sample_summaries_witness:
  "total_sampled start = 0 \<and> review_coverage_summary start = Inl ZeroDivisionError
   \<and> total_prs start = 0 \<and> comment_depth_summary start = Inl ZeroDivisionError
   \<and> cycle_times start = [] \<and> cycle_time_summary start = Inr start
   \<and> response_times start = [] \<and> response_time_summary start = Inr start
   \<and> iteration_counts start = [] \<and> iteration_count_summary start = Inr start"
  using empty_sample_summaries [of start 300] by (simp add: start_def)

section \<open>Rounding to the nearest float\<close>

lemma floor_numeral_divide:
  "\<lfloor>numeral a / numeral b :: rat\<rfloor> = numeral a div numeral b"
  using floor_divide_of_int_eq [of "numeral a" "numeral b", where ?'a = rat] by simp

lemmas round_double_eval =
  round_double_def exponent_def doublings.simps halvings.simps round_half_even_def Let_def
  scale2_def floor_numeral_divide

lemma round_half_even_error: "\<bar>of_int (round_half_even y) - y\<bar> \<le> 1 / 2"
proof -
  have lo: "of_int \<lfloor>y\<rfloor> \<le> y" and hi: "y < of_int \<lfloor>y\<rfloor> + 1"
    by linarith+
  show ?thesis
    unfolding round_half_even_def Let_def using lo hi by auto
qed

lemma round_half_even_of_int: "round_half_even (of_int k) = k"
  by (simp add: round_half_even_def)

lemma halvings_le: "1 \<le> x \<Longrightarrow> 2 ^ halvings x \<le> x"
proof (induction x rule: halvings.induct)
  case (1 x)
  show ?case
  proof (cases "x < 2")
    case True
    with "1.prems" show ?thesis by (simp add: halvings.simps)
  next
    case False
    then have "1 \<le> x / 2" by simp
    with False have "2 ^ halvings (x / 2) \<le> x / 2" by (rule "1.IH")
    with False show ?thesis by (simp add: halvings.simps [of x])
  qed
qed

lemma doublings_ge: "0 < x \<Longrightarrow> x < 1 \<Longrightarrow> 1 \<le> x * 2 ^ doublings x"
proof (induction x rule: doublings.induct)
  case (1 x)
  from "1.prems" have c: "\<not> (1 \<le> x \<or> x \<le> 0)" by simp
  show ?case
  proof (cases "2 * x < 1")
    case True
    have "1 \<le> 2 * x * 2 ^ doublings (2 * x)"
      using c by (rule "1.IH") (use "1.prems" True in simp_all)
    with c show ?thesis by (simp add: doublings.simps [of x] mult.assoc mult.left_commute)
  next
    case False
    then have "doublings (2 * x) = 0" by (simp add: doublings.simps [of "2 * x"])
    with c False show ?thesis by (simp add: doublings.simps [of x] mult.commute)
  qed
qed

lemma scale2_powi: "scale2 x k = x * 2 powi k"
proof (cases "0 \<le> k")
  case True
  then show ?thesis by (simp add: scale2_def power_int_def)
next
  case False
  have "inverse (2::rat) ^ nat (- k) = 1 / 2 ^ nat (- k)"
    by (simp add: power_one_over inverse_eq_divide)
  with False show ?thesis by (simp add: scale2_def power_int_def)
qed

lemma exponent_le:
  assumes "0 < x"
  shows "2 powi exponent x \<le> x"
proof (cases "1 \<le> x")
  case True
  then have "2 ^ halvings x \<le> x" by (rule halvings_le)
  with True show ?thesis by (simp add: exponent_def)
next
  case False
  then have "1 \<le> x * 2 ^ doublings x" using assms by (intro doublings_ge) simp_all
  then have "1 / 2 ^ doublings x \<le> x" by (simp add: field_simps)
  with False show ?thesis
    by (simp add: exponent_def power_int_minus inverse_eq_divide)
qed

lemma round_double_error:
  "\<bar>round_double x - x\<bar> \<le> max (\<bar>x\<bar> / 2 ^ 53) (1 / 2 ^ 1075)"
proof (cases "x = 0")
  case True
  then show ?thesis by (simp add: round_double_def)
next
  case False
  define a where "a = \<bar>x\<bar>"
  define e where "e = max (exponent a) (- 1022)"
  define m where "m = round_half_even (scale2 a (52 - e))"
  have a: "0 < a" using False by (simp add: a_def)
  have r: "round_double x = sgn x * (of_int m * 2 powi (e - 52))"
    using False by (simp add: round_double_def Let_def a_def e_def m_def scale2_powi)
  have x: "x = sgn x * a" by (simp add: a_def sgn_mult_abs)
  have p: "(0::rat) < 2 powi (e - 52)" by simp
  have inv: "2 powi (52 - e) * 2 powi (e - 52) = (1::rat)"
    by (simp add: power_int_add [symmetric])
  have "round_double x - x = sgn x * (of_int m * 2 powi (e - 52) - a)"
    by (subst (2) x) (simp add: r algebra_simps)
  also have "of_int m * 2 powi (e - 52) - a
      = (of_int m - a * 2 powi (52 - e)) * 2 powi (e - 52)"
    using inv by (simp add: algebra_simps)
  finally have "\<bar>round_double x - x\<bar>
      = \<bar>of_int m - a * 2 powi (52 - e)\<bar> * 2 powi (e - 52)"
    using False p by (simp add: abs_mult abs_sgn_eq)
  also have "\<dots> \<le> 1 / 2 * 2 powi (e - 52)"
    using round_half_even_error [of "scale2 a (52 - e)"] p
    by (intro mult_right_mono) (simp_all add: m_def scale2_powi)
  also have "\<dots> = 2 powi e / 2 ^ 53"
  proof -
    have "(2::rat) powi (e - 52) = 2 powi e / 2 powi 52"
      by (rule power_int_diff) simp
    then show ?thesis by simp
  qed
  finally have b: "\<bar>round_double x - x\<bar> \<le> 2 powi e / 2 ^ 53" .
  show ?thesis
  proof (cases "- 1022 \<le> exponent a")
    case True
    then have "e = exponent a" by (simp add: e_def)
    then have "2 powi e \<le> a" using exponent_le [OF a] by simp
    then have "2 powi e / 2 ^ 53 \<le> a / 2 ^ 53" by (simp add: divide_right_mono)
    with b have "\<bar>round_double x - x\<bar> \<le> a / 2 ^ 53" by (rule order_trans)
    then show ?thesis unfolding a_def by (rule max.coboundedI1)
  next
    case False
    then have "e = - 1022" by (simp add: e_def)
    then have "(2::rat) powi e / 2 ^ 53 = 1 / 2 ^ 1075"
      by (simp add: power_int_minus inverse_eq_divide)
    with b have "\<bar>round_double x - x\<bar> \<le> 1 / 2 ^ 1075" by (simp only:)
    then show ?thesis by (rule max.coboundedI2)
  qed
qed

lemma round_double_of_int:
  assumes "\<bar>n\<bar> < 2 ^ 53"
  shows "round_double (of_int n) = of_int n"
proof (cases "n = 0")
  case True
  then show ?thesis by (simp add: round_double_def)
next
  case False
  define a :: rat where "a = of_int \<bar>n\<bar>"
  define h where "h = halvings a"
  have a1: "1 \<le> a" using False by (simp add: a_def)
  have "2 ^ h \<le> a" unfolding h_def using a1 by (rule halvings_le)
  moreover have "a < 2 ^ 53"
  proof -
    have "(of_int \<bar>n\<bar> :: rat) < of_int (2 ^ 53)" using assms by (simp only: of_int_less_iff)
    then show ?thesis by (simp add: a_def)
  qed
  ultimately have "(2::rat) ^ h < 2 ^ 53" by (rule le_less_trans)
  with _ have h: "h < 53" by (rule power_less_imp_less_exp) simp
  have e: "exponent a = int h" using a1 by (simp add: exponent_def h_def)
  have abs: "\<bar>of_int n :: rat\<bar> = a" by (simp add: a_def)
  have s1: "scale2 a (52 - int h) = of_int (\<bar>n\<bar> * 2 ^ (52 - h))"
    using h by (simp add: scale2_def a_def nat_diff_distrib')
  have s2: "scale2 (of_int (\<bar>n\<bar> * 2 ^ (52 - h))) (int h - 52) = a"
  proof (cases "h = 52")
    case True
    then show ?thesis by (simp add: scale2_def a_def)
  next
    case False
    with h have "h < 52" by simp
    then show ?thesis by (simp add: scale2_def a_def nat_diff_distrib')
  qed
  have "round_double (of_int n)
      = sgn (of_int n) * scale2 (of_int (round_half_even (scale2 a (52 - int h)))) (int h - 52)"
    using False by (simp add: round_double_def Let_def abs e)
  also have "\<dots> = sgn (of_int n) * a"
    by (simp only: s1 round_half_even_of_int s2)
  also have "\<dots> = of_int n"
    unfolding abs [symmetric] by (rule sgn_mult_abs)
  finally show ?thesis .
qed

lemma not_overflows_of_int:
  assumes "\<bar>n\<bar> < 2 ^ 53"
  shows "\<not> overflows (of_int n)"
proof -
  have "(of_int \<bar>n\<bar> :: rat) < of_int (2 ^ 53)" using assms by (simp only: of_int_less_iff)
  then have "\<bar>of_int n :: rat\<bar> < 2 ^ 53" by simp
  also have "(2::rat) ^ 53 < 2 ^ 1024" by (rule power_strict_increasing) simp_all
  finally show ?thesis by (simp add: overflows_def round_double_of_int [OF assms])
qed

lemma to_float_PyInt:
  "\<bar>n\<bar> < 2 ^ 53 \<Longrightarrow> to_float (PyInt n) = Inr (of_int n)"
  by (simp add: not_overflows_of_int round_double_of_int)

lemma total_seconds_exact: "\<bar>td\<bar> < 2 ^ 53 \<Longrightarrow> total_seconds td = of_int td"
  by (simp add: total_seconds_def round_double_of_int)

lemma hours_error:
  assumes "0 < n"
  shows "\<bar>round_double (of_int n / 3600) - of_int n / 3600\<bar> \<le> of_int n / 3600 / 2 ^ 53"
proof -
  let ?x = "rat_of_int n / 3600"
  have "1 \<le> rat_of_int n" using assms by simp
  then have x: "1 / 3600 \<le> ?x" by (simp add: divide_right_mono)
  have "(1::rat) / 2 ^ 1075 \<le> 1 / 3600 / 2 ^ 53" by simp
  also have "\<dots> \<le> ?x / 2 ^ 53" using x by (rule divide_right_mono) simp
  finally have "max (\<bar>?x\<bar> / 2 ^ 53) (1 / 2 ^ 1075) = ?x / 2 ^ 53"
    using assms by (simp add: max_def)
  with round_double_error [of ?x] show ?thesis by simp
qed

section \<open>The first response\<close>

text \<open>
  Claim C7. For an item of the response-time metric the first response is the creation time
  of the first issue comment or the submission time of the first review, whichever exists,
  and the earlier of the two when both exist. For an item whose first response is later
  than its creation, whether the comment or the review came first, the stored observation is
  the time from creation to that first response in hours, as a float: the number of seconds,
  which is exact below \<open>2 ^ 53\<close>, divided by 3600 and rounded to the nearest float, at a
  relative distance of at most \<open>1 / 2 ^ 53\<close> from the exact number of hours.
\<close>

theorem first_response_is_earliest:
  "first_response_of pr =
     (case (get_issue_comments pr, get_reviews pr) of
        ([], []) \<Rightarrow> None
      | (c # _, []) \<Rightarrow> Some (comment_created_at c)
      | ([], r # _) \<Rightarrow> Some (submitted_at r)
      | (c # _, r # _) \<Rightarrow> Some (min (comment_created_at c) (submitted_at r)))
   \<and> (first_response_of pr = Some fr \<and> created_at pr < fr \<longrightarrow>
          response_times (response_time_body pr s)
            = response_times s @ [round_double (total_seconds (fr - created_at pr) / 3600)]
        \<and> (count s < max_sample \<longrightarrow>
             response_times (response_time_loop max_sample [pr] s)
               = response_times s @ [round_double (total_seconds (fr - created_at pr) / 3600)])
        \<and> (fr - created_at pr < 2 ^ 53 \<longrightarrow>
             total_seconds (fr - created_at pr) = of_int (fr - created_at pr)
           \<and> \<bar>round_double (of_int (fr - created_at pr) / 3600)
                - of_int (fr - created_at pr) / 3600\<bar>
               \<le> of_int (fr - created_at pr) / 3600 / 2 ^ 53))"
proof -
  have 1: "first_response_of pr =
     (case (get_issue_comments pr, get_reviews pr) of
        ([], []) \<Rightarrow> None
      | (c # _, []) \<Rightarrow> Some (comment_created_at c)
      | ([], r # _) \<Rightarrow> Some (submitted_at r)
      | (c # _, r # _) \<Rightarrow> Some (min (comment_created_at c) (submitted_at r)))"
    by (simp add: first_response_of_def Let_def min_def split: list.splits)
  have 2: "response_times (response_time_body pr s)
            = response_times s @ [round_double (total_seconds (fr - created_at pr) / 3600)]"
    if "first_response_of pr = Some fr" and "created_at pr < fr"
    using that by (simp add: response_time_body_response_times response_time_of_def)
  have 3: "response_times (response_time_loop max_sample [pr] s)
               = response_times s @ [round_double (total_seconds (fr - created_at pr) / 3600)]"
    if "first_response_of pr = Some fr" and "created_at pr < fr" and "count s < max_sample"
    using that
    by (simp add: response_time_loop_step response_time_body_response_times response_time_of_def)
  have 4: "total_seconds (fr - created_at pr) = of_int (fr - created_at pr)"
    if "created_at pr < fr" and "fr - created_at pr < 2 ^ 53"
    using that by (intro total_seconds_exact) simp
  have 5: "\<bar>round_double (of_int (fr - created_at pr) / 3600)
                - of_int (fr - created_at pr) / 3600\<bar>
               \<le> of_int (fr - created_at pr) / 3600 / 2 ^ 53"
    if "created_at pr < fr"
    using that by (intro hours_error) simp
  from 1 2 3 4 5 show ?thesis by blast
qed

theorem first_response_is_earliest_witness:
  "let comment_first = pr0\<lparr>created_at := 0, get_issue_comments := [IssueComment 7200],
         get_reviews := [\<lparr>user = None, submitted_at = 10800\<rparr>]\<rparr>;
       review_first = pr0\<lparr>created_at := 0, get_issue_comments := [IssueComment 10800],
         get_reviews := [\<lparr>user = None, submitted_at = 1\<rparr>]\<rparr>
   in first_response_of comment_first = Some 7200 \<and> created_at comment_first < 7200
    \<and> first_response_of review_first = Some 1 \<and> created_at review_first < 1
    \<and> response_times (response_time_body comment_first start) = [2]
    \<and> response_times (response_time_body review_first start)
        = [5124095576030431 / 18446744073709551616]
    \<and> response_times (response_time_loop 300 [comment_first, review_first] start)
        = [2, 5124095576030431 / 18446744073709551616]"
proof -
  let ?c = "pr0\<lparr>created_at := 0, get_issue_comments := [IssueComment 7200],
         get_reviews := [\<lparr>user = None, submitted_at = 10800\<rparr>]\<rparr>"
  let ?r = "pr0\<lparr>created_at := 0, get_issue_comments := [IssueComment 10800],
         get_reviews := [\<lparr>user = None, submitted_at = 1\<rparr>]\<rparr>"
  have h2: "round_double (total_seconds 7200 / 3600) = 2"
    by (simp add: total_seconds_def round_double_eval)
  have h1: "round_double (total_seconds 1 / 3600) = 5124095576030431 / 18446744073709551616"
    by (simp add: total_seconds_def round_double_eval)
  have fc: "first_response_of ?c = Some 7200"
    using first_response_is_earliest [where pr = ?c and fr = 7200 and s = start and max_sample = 300]
    by (simp add: pr0_def)
  have fr: "first_response_of ?r = Some 1"
    using first_response_is_earliest [where pr = ?r and fr = 1 and s = start and max_sample = 300]
    by (simp add: pr0_def)
  have bc: "response_times (response_time_body ?c start) = [2]"
    using first_response_is_earliest [where pr = ?c and fr = 7200 and s = start and max_sample = 300]
      fc
    by (simp add: pr0_def start_def h2)
  have br: "response_times (response_time_body ?r start)
      = [5124095576030431 / 18446744073709551616]"
    using first_response_is_earliest [where pr = ?r and fr = 1 and s = start and max_sample = 300]
      fr
    by (simp add: pr0_def start_def h1)
  have lp: "response_times (response_time_loop 300 [?c, ?r] start)
      = [2, 5124095576030431 / 18446744073709551616]"
    using response_time_loop_response_times [of start 300 "[?c, ?r]"] fc fr
    by (simp add: start_def response_time_of_def pr0_def h1 h2)
  from fc fr bc br lp show ?thesis by (simp add: Let_def pr0_def)
qed

section \<open>Median and mean\<close>

lemma sorted_count_le:
  fixes ys :: "rat list"
  assumes "sorted ys" and "i < length ys" and "ys ! i \<le> m"
  shows "i + 1 \<le> length (filter (\<lambda>x. x \<le> m) ys)"
proof -
  have all: "\<forall>x\<in>set (take (i + 1) ys). x \<le> m"
  proof
    fix x assume "x \<in> set (take (i + 1) ys)"
    then obtain j where j: "j < length (take (i + 1) ys)" and x: "x = take (i + 1) ys ! j"
      by (auto simp add: in_set_conv_nth)
    from j have ji: "j \<le> i" by simp
    with x have "x = ys ! j" by simp
    moreover have "ys ! j \<le> ys ! i" using assms(1) ji assms(2) by (rule sorted_nth_mono)
    ultimately show "x \<le> m" using assms(3) by simp
  qed
  have "filter (\<lambda>x. x \<le> m) ys
      = filter (\<lambda>x. x \<le> m) (take (i + 1) ys) @ filter (\<lambda>x. x \<le> m) (drop (i + 1) ys)"
    by (simp only: filter_append [symmetric] append_take_drop_id)
  also have "filter (\<lambda>x. x \<le> m) (take (i + 1) ys) = take (i + 1) ys"
    using all by (simp only: filter_id_conv)
  finally have "length (take (i + 1) ys) \<le> length (filter (\<lambda>x. x \<le> m) ys)" by simp
  with assms(2) show ?thesis by simp
qed

lemma sorted_count_ge:
  fixes ys :: "rat list"
  assumes "sorted ys" and "i < length ys" and "m \<le> ys ! i"
  shows "length ys - i \<le> length (filter (\<lambda>x. m \<le> x) ys)"
proof -
  have all: "\<forall>x\<in>set (drop i ys). m \<le> x"
  proof
    fix x assume "x \<in> set (drop i ys)"
    then obtain j where j: "j < length (drop i ys)" and x: "x = drop i ys ! j"
      by (auto simp add: in_set_conv_nth)
    from j have ij: "i + j < length ys" by simp
    from x ij have "x = ys ! (i + j)" by simp
    moreover have "ys ! i \<le> ys ! (i + j)" using assms(1) _ ij by (rule sorted_nth_mono) simp
    ultimately show "m \<le> x" using assms(3) by simp
  qed
  have "filter (\<lambda>x. m \<le> x) ys
      = filter (\<lambda>x. m \<le> x) (take i ys) @ filter (\<lambda>x. m \<le> x) (drop i ys)"
    by (simp only: filter_append [symmetric] append_take_drop_id)
  also have "filter (\<lambda>x. m \<le> x) (drop i ys) = drop i ys"
    using all by (simp only: filter_id_conv)
  finally have "length (drop i ys) \<le> length (filter (\<lambda>x. m \<le> x) ys)" by simp
  then show ?thesis by simp
qed

lemma length_filter_sort:
  fixes data :: "rat list"
  shows "length (filter P (sort data)) = length (filter P data)"
  by (simp add: filter_sort)

lemma statistical_median_half:
  assumes "data \<noteq> []"
  shows "length data \<le> 2 * length (filter (\<lambda>x. x \<le> statistical_median data) data)"
    and "length data \<le> 2 * length (filter (\<lambda>x. statistical_median data \<le> x) data)"
proof -
  let ?ys = "sort data"
  let ?n = "length data"
  let ?m = "statistical_median data"
  have s: "sorted ?ys" by simp
  have n: "length ?ys = ?n" by simp
  have pos: "0 < ?n" using assms by simp
  have lo: "\<exists>i. i < ?n \<and> ?ys ! i \<le> ?m \<and> ?n \<le> 2 * (i + 1)"
  proof (cases "even ?n")
    case True
    then obtain k where k: "?n = 2 * k" by (auto elim: evenE)
    with pos have k0: "0 < k" by simp
    have "?ys ! (k - 1) \<le> ?ys ! k" using s by (rule sorted_nth_mono) (use k k0 in simp_all)
    then have "?ys ! (k - 1) \<le> (?ys ! (k - 1) + ?ys ! k) / 2" by simp
    moreover have "?m = (?ys ! (k - 1) + ?ys ! k) / 2"
      using True k by (simp add: statistical_median_def)
    ultimately show ?thesis using k k0 by (intro exI [of _ "k - 1"]) simp
  next
    case False
    then obtain k where k: "?n = 2 * k + 1" by (auto elim: oddE)
    have "?m = ?ys ! k" using False k by (simp add: statistical_median_def)
    then show ?thesis using k by (intro exI [of _ k]) simp
  qed
  have hi: "\<exists>i. i < ?n \<and> ?m \<le> ?ys ! i \<and> ?n \<le> 2 * (?n - i)"
  proof (cases "even ?n")
    case True
    then obtain k where k: "?n = 2 * k" by (auto elim: evenE)
    with pos have k0: "0 < k" by simp
    have "?ys ! (k - 1) \<le> ?ys ! k" using s by (rule sorted_nth_mono) (use k k0 in simp_all)
    then have "(?ys ! (k - 1) + ?ys ! k) / 2 \<le> ?ys ! k" by simp
    moreover have "?m = (?ys ! (k - 1) + ?ys ! k) / 2"
      using True k by (simp add: statistical_median_def)
    ultimately show ?thesis using k k0 by (intro exI [of _ k]) simp
  next
    case False
    then obtain k where k: "?n = 2 * k + 1" by (auto elim: oddE)
    have "?m = ?ys ! k" using False k by (simp add: statistical_median_def)
    then show ?thesis using k by (intro exI [of _ k]) simp
  qed
  from lo obtain i where i: "i < ?n" "?ys ! i \<le> ?m" "?n \<le> 2 * (i + 1)" by blast
  have "i + 1 \<le> length (filter (\<lambda>x. x \<le> ?m) ?ys)"
    using s _ i(2) by (rule sorted_count_le) (use i(1) in simp)
  then have "i + 1 \<le> length (filter (\<lambda>x. x \<le> ?m) data)" by (simp only: length_filter_sort)
  with i(3) show "?n \<le> 2 * length (filter (\<lambda>x. x \<le> ?m) data)" by simp
  from hi obtain j where j: "j < ?n" "?m \<le> ?ys ! j" "?n \<le> 2 * (?n - j)" by blast
  have "length ?ys - j \<le> length (filter (\<lambda>x. ?m \<le> x) ?ys)"
    using s _ j(2) by (rule sorted_count_ge) (use j(1) in simp)
  then have "?n - j \<le> length (filter (\<lambda>x. ?m \<le> x) data)" by (simp only: length_filter_sort n)
  with j(3) show "?n \<le> 2 * length (filter (\<lambda>x. ?m \<le> x) data)" by simp
qed

lemma insort_key_val_PyInt:
  "insort_key val (PyInt x) (map PyInt ys) = map PyInt (insort x ys)"
  by (induction ys) simp_all

lemma sort_key_val_PyInt: "sort_key val (map PyInt xs) = map PyInt (sort xs)"
  by (induction xs) (simp_all add: insort_key_val_PyInt)

lemma insort_key_val_PyFloat:
  "insort_key val (PyFloat x) (map PyFloat ys) = map PyFloat (insort x ys)"
  by (induction ys) simp_all

lemma sort_key_val_PyFloat: "sort_key val (map PyFloat ys) = map PyFloat (sort ys)"
  by (induction ys) (simp_all add: insort_key_val_PyFloat)

lemma insort_of_int:
  "insort (rat_of_int x) (map of_int ys) = map of_int (insort x ys)"
  by (induction ys) simp_all

lemma sort_of_int: "sort (map rat_of_int xs) = map of_int (sort xs)"
  by (induction xs) (simp_all add: insort_of_int)

lemma round_double_2 [simp]: "round_double 2 = 2"
  using round_double_of_int [of 2] by simp

lemma round_double_24 [simp]: "round_double 24 = 24"
  using round_double_of_int [of 24] by simp

lemma round_double_100 [simp]: "round_double 100 = 100"
  using round_double_of_int [of 100] by simp

lemma not_overflows_2 [simp]: "\<not> overflows 2"
  using not_overflows_of_int [of 2] by simp

lemma not_overflows_24 [simp]: "\<not> overflows 24"
  using not_overflows_of_int [of 24] by simp

lemma not_overflows_100 [simp]: "\<not> overflows 100"
  using not_overflows_of_int [of 100] by simp

lemma sort_not_Nil: "xs \<noteq> [] \<Longrightarrow> sort xs \<noteq> []"
proof
  assume "xs \<noteq> []" and "sort xs = []"
  from this(2) have "length (sort xs) = 0" by (simp only: list.size)
  then have "length xs = 0" by simp
  with \<open>xs \<noteq> []\<close> show False by simp
qed

lemma middle_indices:
  assumes "xs \<noteq> []"
  shows "length xs div 2 < length xs" and "length xs div 2 - 1 < length xs"
proof -
  from assms have "0 < length xs" by simp
  then show a: "length xs div 2 < length xs" by simp
  have "length xs div 2 - 1 \<le> length xs div 2" by simp
  then show "length xs div 2 - 1 < length xs" using a by (rule le_less_trans)
qed

lemma median_ints:
  assumes "xs \<noteq> []"
  shows "median (map PyInt xs) =
     (if odd (length xs) then Inr (PyInt (sort xs ! (length xs div 2)))
      else if overflows (statistical_median (map of_int xs)) then Inl OverflowError
      else Inr (PyFloat (round_double (statistical_median (map of_int xs)))))"
proof -
  have n: "length (sort xs) = length xs" by simp
  have i: "length xs div 2 < length (sort xs)" "length xs div 2 - 1 < length (sort xs)"
    using middle_indices [OF assms] by simp_all
  have ne: "length xs \<noteq> 0" "sort xs \<noteq> []" using assms by (simp_all add: sort_not_Nil)
  show ?thesis
  proof (cases "odd (length xs)")
    case True
    then have "length xs mod 2 = 1" by (simp add: odd_iff_mod_2_eq_one)
    with True ne i show ?thesis
      by (simp add: median_def Let_def sort_key_val_PyInt)
  next
    case False
    then have m: "length xs mod 2 \<noteq> 1" by (simp add: odd_iff_mod_2_eq_one)
    have sm: "statistical_median (map of_int xs)
        = rat_of_int (sort xs ! (length xs div 2 - 1) + sort xs ! (length xs div 2)) / of_int 2"
      using False i by (simp add: statistical_median_def sort_of_int)
    show ?thesis
      unfolding sm using False m ne i
      by (simp add: median_def Let_def sort_key_val_PyInt)
  qed
qed

lemma mean_ints:
  assumes "xs \<noteq> []"
  shows "mean (map PyInt xs) =
     (let a = arithmetic_mean (map of_int xs) in
      if of_int \<lfloor>a\<rfloor> = a then Inr (PyInt \<lfloor>a\<rfloor>)
      else if overflows a then Inl OverflowError
      else Inr (PyFloat (round_double a)))"
proof -
  have s: "map val (map PyInt xs) = map of_int xs" by simp
  have l: "list_all is_int (map PyInt xs)" by (simp add: list_all_iff)
  have "\<not> length xs < 1" using assms by (cases xs) simp_all
  then show ?thesis
    unfolding mean_def Let_def s arithmetic_mean_def using l by simp
qed

lemma median_floats:
  assumes "ys \<noteq> []"
  shows "median (map PyFloat ys) =
     Inr (PyFloat
       (if odd (length ys) then sort ys ! (length ys div 2)
        else round_double
          (round_double (sort ys ! (length ys div 2 - 1) + sort ys ! (length ys div 2)) / 2)))"
proof -
  have i: "length ys div 2 < length (sort ys)" "length ys div 2 - 1 < length (sort ys)"
    using middle_indices [OF assms] by simp_all
  have ne: "length ys \<noteq> 0" "sort ys \<noteq> []" using assms by (simp_all add: sort_not_Nil)
  show ?thesis
  proof (cases "odd (length ys)")
    case True
    then have "length ys mod 2 = 1" by (simp add: odd_iff_mod_2_eq_one)
    with True ne i show ?thesis
      by (simp add: median_def Let_def sort_key_val_PyFloat)
  next
    case False
    then have m: "length ys mod 2 \<noteq> 1" by (simp add: odd_iff_mod_2_eq_one)
    show ?thesis
      using False m ne i
      by (simp add: median_def Let_def sort_key_val_PyFloat)
  qed
qed

lemma mean_floats:
  assumes "ys \<noteq> []"
  shows "mean (map PyFloat ys) =
     (if overflows (arithmetic_mean ys) then Inl OverflowError
      else Inr (PyFloat (round_double (arithmetic_mean ys))))"
proof -
  have s: "map val (map PyFloat ys) = ys" by (simp add: comp_def)
  have l: "\<not> list_all is_int (map PyFloat ys)" using assms by (cases ys) simp_all
  have "\<not> length ys < 1" using assms by (cases ys) simp_all
  then show ?thesis
    unfolding mean_def Let_def s arithmetic_mean_def using l by simp
qed

lemma truediv_float_24:
  "truediv (PyFloat x) (PyInt 24) = Inr (PyFloat (round_double (x / 24)))"
  by simp

lemma cycle_time_summary_eq:
  assumes "cycle_times s \<noteq> []" and "median (map PyInt (cycle_times s)) = Inr med"
    and "mean (map PyInt (cycle_times s)) = Inr avg"
    and "format_f 1 med = Inr shown_median" and "format_f 1 avg = Inr shown_mean"
  shows "cycle_time_summary s =
        Inr (print (Size ''Sample size'' (length (cycle_times s)))
          (print (Stat ''Mean PR Cycle Time'' shown_mean)
            (print (Stat ''Median PR Cycle Time'' shown_median) s)))"
  using assms by (simp add: cycle_time_summary_def)

lemma iteration_count_summary_eq:
  assumes "iteration_counts s \<noteq> []" and "median (map PyInt (iteration_counts s)) = Inr med"
    and "mean (map PyInt (iteration_counts s)) = Inr avg"
    and "format_f 0 med = Inr shown_median" and "format_f 1 avg = Inr shown_mean"
  shows "iteration_count_summary s =
        Inr (print (Stat ''Median PR Iteration Count'' shown_median)
          (print (Stat ''Average PR Iteration Count'' shown_mean) s))"
  using assms by (simp add: iteration_count_summary_def)

lemma response_time_summary_eq:
  assumes "response_times s \<noteq> []"
    and "median (map PyFloat (response_times s)) = Inr (PyFloat med)"
    and "mean (map PyFloat (response_times s)) = Inr (PyFloat avg)"
  shows "response_time_summary s =
        Inr (print (Stat ''Mean PR Response Time'' (decimal 1 (round_double (avg / 24))))
          (print (Stat ''Median PR Response Time'' (decimal 1 (round_double (med / 24)))) s))"
  using assms by (simp add: response_time_summary_def format_f_def)

text \<open>
  The mean of the cycle times 0, 0 and 1 is the float nearest to one third, not one third.
\<close>

theorem rounded_mean_counterexample:
  "mean (map PyInt [0, 0, 1]) = Inr (PyFloat (6004799503160661 / 18014398509481984))
   \<and> arithmetic_mean (map of_int [0, 0, 1]) = 1 / 3
   \<and> (6004799503160661 / 18014398509481984 :: rat) \<noteq> 1 / 3"
proof -
  have r: "round_double (1 / 3) = 6004799503160661 / 18014398509481984"
    by (simp add: round_double_eval)
  have o: "\<not> overflows (1 / 3)" by (simp add: overflows_def r)
  have f: "\<lfloor>1 / 3 :: rat\<rfloor> = 0" by (simp add: floor_eq_iff)
  show ?thesis
    by (simp add: mean_def arithmetic_mean_def Let_def r o f del: of_int_floor_cancel)
qed

text \<open>
  Claim C6, as amended. For non-empty observations the computed median is the statistical
  median when their number is odd. When it is even the median is the average of the two
  middle values rounded to the nearest float; for the float observations of the response
  time it is the float sum of the two, halved and rounded. The computed mean is the
  arithmetic mean when the observations are integers and their mean is an integer, and
  otherwise the arithmetic mean rounded to the nearest float; a value too large for a float
  raises \<^verbatim>\<open>OverflowError\<close>. Rounding to the nearest float moves a value \<open>x\<close> by at most
  \<open>\<bar>x\<bar> / 2 ^ 53\<close>, or \<open>1 / 2 ^ 1075\<close> for the smallest values. The statistical median
  has at least half of the data on either side. The cycle-time and iteration-count summaries
  print these values with one decimal, the iteration-count median with none.
\<close>

theorem reported_median_and_mean:
  "(xs \<noteq> [] \<longrightarrow>
      median (map PyInt xs) =
        (if odd (length xs) then Inr (PyInt (sort xs ! (length xs div 2)))
         else if overflows (statistical_median (map of_int xs)) then Inl OverflowError
         else Inr (PyFloat (round_double (statistical_median (map of_int xs)))))
    \<and> (odd (length xs) \<longrightarrow>
          of_int (sort xs ! (length xs div 2)) = statistical_median (map of_int xs))
    \<and> mean (map PyInt xs) =
        (let a = arithmetic_mean (map of_int xs) in
         if of_int \<lfloor>a\<rfloor> = a then Inr (PyInt \<lfloor>a\<rfloor>)
         else if overflows a then Inl OverflowError
         else Inr (PyFloat (round_double a))))
   \<and> (ys \<noteq> [] \<longrightarrow>
      median (map PyFloat ys) =
        Inr (PyFloat
          (if odd (length ys) then statistical_median ys
           else round_double
             (round_double (sort ys ! (length ys div 2 - 1) + sort ys ! (length ys div 2)) / 2)))
    \<and> mean (map PyFloat ys) =
        (if overflows (arithmetic_mean ys) then Inl OverflowError
         else Inr (PyFloat (round_double (arithmetic_mean ys)))))
   \<and> \<bar>round_double x - x\<bar> \<le> max (\<bar>x\<bar> / 2 ^ 53) (1 / 2 ^ 1075)
   \<and> (data \<noteq> [] \<longrightarrow>
        length data \<le> 2 * length (filter (\<lambda>v. v \<le> statistical_median data) data)
      \<and> length data \<le> 2 * length (filter (\<lambda>v. statistical_median data \<le> v) data))
   \<and> (cycle_times s \<noteq> [] \<and> median (map PyInt (cycle_times s)) = Inr med
        \<and> mean (map PyInt (cycle_times s)) = Inr avg
        \<and> format_f 1 med = Inr shown_median \<and> format_f 1 avg = Inr shown_mean \<longrightarrow>
      cycle_time_summary s =
        Inr (print (Size ''Sample size'' (length (cycle_times s)))
          (print (Stat ''Mean PR Cycle Time'' shown_mean)
            (print (Stat ''Median PR Cycle Time'' shown_median) s))))
   \<and> (iteration_counts s \<noteq> [] \<and> median (map PyInt (iteration_counts s)) = Inr med
        \<and> mean (map PyInt (iteration_counts s)) = Inr avg
        \<and> format_f 0 med = Inr shown_median \<and> format_f 1 avg = Inr shown_mean \<longrightarrow>
      iteration_count_summary s =
        Inr (print (Stat ''Median PR Iteration Count'' shown_median)
          (print (Stat ''Average PR Iteration Count'' shown_mean) s)))"
proof -
  have 1: "of_int (sort xs ! (length xs div 2)) = statistical_median (map of_int xs)"
    if "xs \<noteq> []" and "odd (length xs)"
    using that middle_indices [OF that(1)]
    by (simp add: statistical_median_def sort_of_int)
  have 2: "median (map PyFloat ys) =
        Inr (PyFloat
          (if odd (length ys) then statistical_median ys
           else round_double
             (round_double (sort ys ! (length ys div 2 - 1) + sort ys ! (length ys div 2)) / 2)))"
    if "ys \<noteq> []"
    using median_floats [OF that] by (simp add: statistical_median_def)
  have 3: "cycle_time_summary s =
        Inr (print (Size ''Sample size'' (length (cycle_times s)))
          (print (Stat ''Mean PR Cycle Time'' shown_mean)
            (print (Stat ''Median PR Cycle Time'' shown_median) s)))"
    if "cycle_times s \<noteq> []" "median (map PyInt (cycle_times s)) = Inr med"
      "mean (map PyInt (cycle_times s)) = Inr avg"
      "format_f 1 med = Inr shown_median" "format_f 1 avg = Inr shown_mean"
    using that by (rule cycle_time_summary_eq)
  have 4: "iteration_count_summary s =
        Inr (print (Stat ''Median PR Iteration Count'' shown_median)
          (print (Stat ''Average PR Iteration Count'' shown_mean) s))"
    if "iteration_counts s \<noteq> []" "median (map PyInt (iteration_counts s)) = Inr med"
      "mean (map PyInt (iteration_counts s)) = Inr avg"
      "format_f 0 med = Inr shown_median" "format_f 1 avg = Inr shown_mean"
    using that by (rule iteration_count_summary_eq)
  from 1 2 3 4 median_ints [of xs] mean_ints [of xs] mean_floats [of ys]
    round_double_error [of x] statistical_median_half [of data]
  show ?thesis by blast
qed

theorem reported_median_and_mean_witness:
  "cycle_time_summary (start\<lparr>cycle_times := [1, 3, 5]\<rparr>) =
     Inr (start\<lparr>cycle_times := [1, 3, 5],
           stdout := [Stat ''Median PR Cycle Time'' 3, Stat ''Mean PR Cycle Time'' 3,
                      Size ''Sample size'' 3]\<rparr>)
   \<and> median (map PyInt [4, 1, 3, 2]) = Inr (PyFloat (5 / 2))
   \<and> mean (map PyInt [4, 1, 3, 2]) = Inr (PyFloat (5 / 2))
   \<and> median (map PyFloat [1 / 4, 1 / 2]) = Inr (PyFloat (3 / 8))
   \<and> iteration_count_summary (start\<lparr>iteration_counts := [2, 3]\<rparr>) =
     Inr (start\<lparr>iteration_counts := [2, 3],
           stdout := [Stat ''Average PR Iteration Count'' (5 / 2),
                      Stat ''Median PR Iteration Count'' 2]\<rparr>)"
proof -
  define s where "s = start\<lparr>cycle_times := [1, 3, 5]\<rparr>"
  have ct: "cycle_times s = [1, 3, 5]" by (simp add: s_def)
  have a1: "arithmetic_mean [1, 3, 5] = 3"
    and m2: "statistical_median [4, 1, 3, 2] = 5 / 2"
    and a2: "arithmetic_mean [4, 1, 3, 2] = 5 / 2"
    by (simp_all add: statistical_median_def arithmetic_mean_def)
  have r52: "round_double (5 / 2) = 5 / 2" and r34: "round_double (3 / 4) = 3 / 4"
    and r38: "round_double (3 / 8) = 3 / 8" and r3: "round_double 3 = 3"
    by (simp_all add: round_double_eval)
  have o52: "\<not> overflows (5 / 2)" and o3: "\<not> overflows 3"
    by (simp_all add: overflows_def r52 r3)
  have f52: "of_int \<lfloor>5 / 2 :: rat\<rfloor> \<noteq> (5 / 2 :: rat)"
    by (simp add: floor_numeral_divide del: of_int_floor_cancel)
  have med: "median (map PyInt (cycle_times s)) = Inr (PyInt 3)"
    unfolding ct using reported_median_and_mean [where xs = "[1, 3, 5]"] by simp
  have avg: "mean (map PyInt (cycle_times s)) = Inr (PyInt 3)"
    unfolding ct using reported_median_and_mean [where xs = "[1, 3, 5]"]
    by (simp add: a1 Let_def del: of_int_floor_cancel)
  have fmt: "format_f 1 (PyInt 3) = Inr 3"
    by (simp add: format_f_def decimal_def round_half_even_def o3 r3)
  have ne: "cycle_times s \<noteq> []" by (simp add: ct)
  from reported_median_and_mean [where s = s and med = "PyInt 3" and avg = "PyInt 3"
        and shown_median = 3 and shown_mean = 3] ne med avg fmt
  have "cycle_time_summary s =
        Inr (print (Size ''Sample size'' (length (cycle_times s)))
          (print (Stat ''Mean PR Cycle Time'' 3)
            (print (Stat ''Median PR Cycle Time'' 3) s)))"
    by blast
  also have "\<dots> = Inr (start\<lparr>cycle_times := [1, 3, 5],
           stdout := [Stat ''Median PR Cycle Time'' 3, Stat ''Mean PR Cycle Time'' 3,
                      Size ''Sample size'' 3]\<rparr>)"
    by (simp add: s_def start_def print_def)
  finally have 1: "cycle_time_summary (start\<lparr>cycle_times := [1, 3, 5]\<rparr>) =
     Inr (start\<lparr>cycle_times := [1, 3, 5],
           stdout := [Stat ''Median PR Cycle Time'' 3, Stat ''Mean PR Cycle Time'' 3,
                      Size ''Sample size'' 3]\<rparr>)"
    unfolding s_def .
  have 2: "median (map PyInt [4, 1, 3, 2]) = Inr (PyFloat (5 / 2))"
    using reported_median_and_mean [where xs = "[4, 1, 3, 2]"] by (simp add: m2 r52 o52)
  have 3: "mean (map PyInt [4, 1, 3, 2]) = Inr (PyFloat (5 / 2))"
    using reported_median_and_mean [where xs = "[4, 1, 3, 2]"] f52
    by (simp add: a2 r52 o52 Let_def del: of_int_floor_cancel)
  have 4: "median (map PyFloat [1 / 4, 1 / 2]) = Inr (PyFloat (3 / 8))"
    using reported_median_and_mean [where ys = "[1 / 4, 1 / 2]"] by (simp add: r34 r38)
  define t where "t = start\<lparr>iteration_counts := [2, 3]\<rparr>"
  have it: "iteration_counts t = [2, 3]" by (simp add: t_def)
  have m3: "statistical_median [2, 3] = 5 / 2" and a3: "arithmetic_mean [2, 3] = 5 / 2"
    by (simp_all add: statistical_median_def arithmetic_mean_def)
  have imed: "median (map PyInt (iteration_counts t)) = Inr (PyFloat (5 / 2))"
    unfolding it using reported_median_and_mean [where xs = "[2, 3]"] by (simp add: m3 r52 o52)
  have iavg: "mean (map PyInt (iteration_counts t)) = Inr (PyFloat (5 / 2))"
    unfolding it using reported_median_and_mean [where xs = "[2, 3]"] f52
    by (simp add: a3 r52 o52 Let_def del: of_int_floor_cancel)
  have f0: "format_f 0 (PyFloat (5 / 2)) = Inr 2"
    by (simp add: format_f_def decimal_def round_half_even_def Let_def floor_numeral_divide)
  have f1: "format_f 1 (PyFloat (5 / 2)) = Inr (5 / 2)"
    by (simp add: format_f_def decimal_def round_half_even_def Let_def)
  have ine: "iteration_counts t \<noteq> []" by (simp add: it)
  from reported_median_and_mean [where s = t and med = "PyFloat (5 / 2)"
        and avg = "PyFloat (5 / 2)" and shown_median = 2 and shown_mean = "5 / 2"]
    ine imed iavg f0 f1
  have "iteration_count_summary t =
        Inr (print (Stat ''Median PR Iteration Count'' 2)
          (print (Stat ''Average PR Iteration Count'' (5 / 2)) t))"
    by blast
  also have "\<dots> = Inr (start\<lparr>iteration_counts := [2, 3],
           stdout := [Stat ''Average PR Iteration Count'' (5 / 2),
                      Stat ''Median PR Iteration Count'' 2]\<rparr>)"
    by (simp add: t_def start_def print_def)
  finally have 5: "iteration_count_summary (start\<lparr>iteration_counts := [2, 3]\<rparr>) =
     Inr (start\<lparr>iteration_counts := [2, 3],
           stdout := [Stat ''Average PR Iteration Count'' (5 / 2),
                      Stat ''Median PR Iteration Count'' 2]\<rparr>)"
    unfolding t_def .
  from 1 2 3 4 5 show ?thesis by blast
qed

section \<open>Hours and days\<close>

text \<open>
  A first response 12960 seconds after creation is stored as the float nearest to 3.6
  hours. Its division by 24 is rounded to a float below 0.15 and shown as 0.1; the exact
  quotient of the stored value by 24 is above 0.15 and would be shown as 0.2.
\<close>

theorem rounded_days_counterexample:
  "response_time_of (pr0\<lparr>get_issue_comments := [IssueComment 12960]\<rparr>)
     = [8106479329266893 / 2251799813685248]
   \<and> truediv (PyFloat (8106479329266893 / 2251799813685248)) (PyInt 24)
     = Inr (PyFloat (5404319552844595 / 36028797018963968))
   \<and> (5404319552844595 / 36028797018963968 :: rat)
     \<noteq> 8106479329266893 / 2251799813685248 / 24
   \<and> decimal 1 (5404319552844595 / 36028797018963968) = 1 / 10
   \<and> decimal 1 (8106479329266893 / 2251799813685248 / 24) = 2 / 10
   \<and> response_time_summary (start\<lparr>response_times := [8106479329266893 / 2251799813685248]\<rparr>)
     = Inr (start\<lparr>response_times := [8106479329266893 / 2251799813685248],
             stdout := [Stat ''Median PR Response Time'' (1 / 10),
                        Stat ''Mean PR Response Time'' (1 / 10)]\<rparr>)"
proof -
  define h :: rat where "h = 8106479329266893 / 2251799813685248"
  define d :: rat where "d = 5404319552844595 / 36028797018963968"
  define s where "s = start\<lparr>response_times := [h]\<rparr>"
  have hh: "round_double (total_seconds 12960 / 3600) = h"
    by (simp add: total_seconds_def round_double_eval h_def)
  have 1: "response_time_of (pr0\<lparr>get_issue_comments := [IssueComment 12960]\<rparr>) = [h]"
    using hh by (simp add: response_time_of_def first_response_of_def pr0_def)
  have dd: "round_double (h / 24) = d" by (simp add: round_double_eval h_def d_def)
  have 2: "truediv (PyFloat h) (PyInt 24) = Inr (PyFloat d)"
    by (simp only: truediv_float_24 dd)
  have 3: "d \<noteq> h / 24" by (simp add: h_def d_def)
  have 4: "decimal 1 d = 1 / 10"
    by (simp add: decimal_def round_half_even_def Let_def floor_numeral_divide d_def)
  have 5: "decimal 1 (h / 24) = 2 / 10"
    by (simp add: decimal_def round_half_even_def Let_def floor_numeral_divide h_def)
  have rh: "round_double h = h" by (simp add: round_double_eval h_def)
  have oh: "\<not> overflows h" unfolding overflows_def rh by (simp add: h_def)
  have rt: "response_times s = [h]" by (simp add: s_def)
  have med: "median (map PyFloat (response_times s)) = Inr (PyFloat h)"
    unfolding rt by (simp add: median_def)
  have avg: "mean (map PyFloat (response_times s)) = Inr (PyFloat h)"
    unfolding rt using rh oh by (simp add: mean_def Let_def)
  have ne: "response_times s \<noteq> []" by (simp add: rt)
  have "response_time_summary s =
        Inr (print (Stat ''Mean PR Response Time'' (decimal 1 (round_double (h / 24))))
          (print (Stat ''Median PR Response Time'' (decimal 1 (round_double (h / 24)))) s))"
    using ne med avg by (rule response_time_summary_eq)
  also have "\<dots> = Inr (print (Stat ''Mean PR Response Time'' (1 / 10))
          (print (Stat ''Median PR Response Time'' (1 / 10)) s))"
    by (simp only: dd 4)
  also have "\<dots> = Inr (start\<lparr>response_times := [h],
             stdout := [Stat ''Median PR Response Time'' (1 / 10),
                        Stat ''Mean PR Response Time'' (1 / 10)]\<rparr>)"
    by (simp add: s_def start_def print_def)
  finally have 6: "response_time_summary (start\<lparr>response_times := [h]\<rparr>)
     = Inr (start\<lparr>response_times := [h],
             stdout := [Stat ''Median PR Response Time'' (1 / 10),
                        Stat ''Mean PR Response Time'' (1 / 10)]\<rparr>)"
    unfolding s_def .
  from 1 2 3 4 5 6 show ?thesis unfolding h_def d_def by blast
qed

text \<open>
  Claim C8, as amended. The response-time summary divides the median and the mean of the
  hour values by 24 in one float division each: the day value is the exact quotient rounded
  to the nearest float, at most \<open>\<bar>x\<bar> / 2 ^ 53\<close> (or \<open>1 / 2 ^ 1075\<close>) away from the exact
  quotient \<open>x\<close>, and the line printed shows this float with one decimal. Nothing else is
  done to the statistic between its computation and its display.
\<close>

theorem response_time_days:
  assumes "response_times s \<noteq> []"
  shows "\<exists>med. median (map PyFloat (response_times s)) = Inr (PyFloat med)
     \<and> truediv (PyFloat med) (PyInt 24) = Inr (PyFloat (round_double (med / 24)))
     \<and> \<bar>round_double (med / 24) - med / 24\<bar> \<le> max (\<bar>med / 24\<bar> / 2 ^ 53) (1 / 2 ^ 1075)
     \<and> (mean (map PyFloat (response_times s)) = Inr (PyFloat avg) \<longrightarrow>
          truediv (PyFloat avg) (PyInt 24) = Inr (PyFloat (round_double (avg / 24)))
        \<and> \<bar>round_double (avg / 24) - avg / 24\<bar> \<le> max (\<bar>avg / 24\<bar> / 2 ^ 53) (1 / 2 ^ 1075)
        \<and> response_time_summary s =
            Inr (print (Stat ''Mean PR Response Time'' (decimal 1 (round_double (avg / 24))))
              (print (Stat ''Median PR Response Time'' (decimal 1 (round_double (med / 24))))
                s)))"
proof -
  let ?ys = "response_times s"
  from median_floats [OF assms] obtain med where
    m: "median (map PyFloat ?ys) = Inr (PyFloat med)" by blast
  have t: "truediv (PyFloat x) (PyInt 24) = Inr (PyFloat (round_double (x / 24)))" for x
    by (rule truediv_float_24)
  have e: "\<bar>round_double (x / 24) - x / 24\<bar> \<le> max (\<bar>x / 24\<bar> / 2 ^ 53) (1 / 2 ^ 1075)"
    for x :: rat
    by (rule round_double_error)
  have s: "response_time_summary s =
            Inr (print (Stat ''Mean PR Response Time'' (decimal 1 (round_double (avg / 24))))
              (print (Stat ''Median PR Response Time'' (decimal 1 (round_double (med / 24))))
                s))"
    if "mean (map PyFloat ?ys) = Inr (PyFloat avg)"
    using assms m that by (rule response_time_summary_eq)
  from m t e s show ?thesis by blast
qed

theorem response_time_days_witness:
  "response_time_summary (start\<lparr>response_times := [48, 24]\<rparr>) =
     Inr (start\<lparr>response_times := [48, 24],
           stdout := [Stat ''Median PR Response Time'' (3 / 2),
                      Stat ''Mean PR Response Time'' (3 / 2)]\<rparr>)
   \<and> median (map PyFloat [48, 24]) = Inr (PyFloat 36)
   \<and> truediv (PyFloat 36) (PyInt 24) = Inr (PyFloat (3 / 2))"
proof -
  define s where "s = start\<lparr>response_times := [48, 24]\<rparr>"
  have rt: "response_times s = [48, 24]" by (simp add: s_def)
  have r72: "round_double 72 = 72" and r36: "round_double 36 = 36"
    and r32: "round_double (36 / 24) = 3 / 2"
    by (simp_all add: round_double_eval)
  have o36: "\<not> overflows 36" by (simp add: overflows_def r36)
  have med: "median (map PyFloat (response_times s)) = Inr (PyFloat 36)"
    unfolding rt by (simp add: median_def Let_def r72 r36)
  have avg: "mean (map PyFloat (response_times s)) = Inr (PyFloat 36)"
    unfolding rt by (simp add: mean_def Let_def r36 o36)
  have dec: "decimal 1 (3 / 2) = 3 / 2"
    by (simp add: decimal_def round_half_even_def Let_def)
  have ne: "response_times s \<noteq> []" by (simp add: rt)
  from response_time_days [OF ne, of 36] obtain m where
    m: "median (map PyFloat (response_times s)) = Inr (PyFloat m)"
    and t: "truediv (PyFloat m) (PyInt 24) = Inr (PyFloat (round_double (m / 24)))"
    and sm: "mean (map PyFloat (response_times s)) = Inr (PyFloat 36) \<longrightarrow>
        response_time_summary s =
            Inr (print (Stat ''Mean PR Response Time'' (decimal 1 (round_double (36 / 24))))
              (print (Stat ''Median PR Response Time'' (decimal 1 (round_double (m / 24))))
                s))"
    by blast
  from m med have m36: "m = 36" by simp
  from sm avg have "response_time_summary s =
            Inr (print (Stat ''Mean PR Response Time'' (decimal 1 (round_double (36 / 24))))
              (print (Stat ''Median PR Response Time'' (decimal 1 (round_double (36 / 24))))
                s))"
    unfolding m36 by blast
  also have "\<dots> = Inr (print (Stat ''Mean PR Response Time'' (3 / 2))
              (print (Stat ''Median PR Response Time'' (3 / 2)) s))"
    by (simp only: r32 dec)
  also have "\<dots> = Inr (start\<lparr>response_times := [48, 24],
           stdout := [Stat ''Median PR Response Time'' (3 / 2),
                      Stat ''Mean PR Response Time'' (3 / 2)]\<rparr>)"
    by (simp add: s_def start_def print_def)
  finally have 1: "response_time_summary (start\<lparr>response_times := [48, 24]\<rparr>) =
     Inr (start\<lparr>response_times := [48, 24],
           stdout := [Stat ''Median PR Response Time'' (3 / 2),
                      Stat ''Mean PR Response Time'' (3 / 2)]\<rparr>)"
    unfolding s_def .
  have 2: "median (map PyFloat [48, 24]) = Inr (PyFloat 36)"
    using med unfolding rt .
  have 3: "truediv (PyFloat 36) (PyInt 24) = Inr (PyFloat (3 / 2))"
    using t unfolding m36 r32 .
  from 1 2 3 show ?thesis by blast
qed

end
